theory Spec2Isabelle
  imports Main
begin

section \<open>JavaScript values that cross the wire\<close>

text \<open>
  Strings are lists of characters; a character stands for one code unit of a JavaScript
  string, and the code units below 256 are the ones modelled. A value produced by \<^verbatim>\<open>JSON.parse\<close> (or handed to \<^verbatim>\<open>JSON.stringify\<close>) is a
  \<open>json\<close>. A number is held as the text JavaScript prints for it, so \<open>''0''\<close> is the only
  falsy number. The members of an object are kept in source order and a repeated key
  reads as its last occurrence, as \<^verbatim>\<open>JSON.parse\<close> builds it. The value \<^verbatim>\<open>undefined\<close> is
  \<open>None\<close> of \<open>json option\<close>.
\<close>

datatype json =
    JNull
  | JBool bool
  | JNum string
  | JStr string
  | JArr "json list"
  | JObj "(string \<times> json) list"

text \<open>
  Reading a property of a non-null value. Only the names \<open>model\<close>, \<open>system\<close>, \<open>messages\<close>,
  \<open>role\<close>, \<open>content\<close>, \<open>type\<close>, \<open>text\<close>, \<open>error\<close> and \<open>usage\<close> are ever read, and none
  of them is a property of an array, a string, a number or a boolean.
\<close>

fun get_prop :: "json \<Rightarrow> string \<Rightarrow> json option" where
  "get_prop (JObj kvs) k = map_of (rev kvs) k"
| "get_prop _ k = None"

text \<open>\<^verbatim>\<open>!v\<close>: the value is falsy.\<close>

fun falsy :: "json option \<Rightarrow> bool" where
  "falsy None = True"
| "falsy (Some JNull) = True"
| "falsy (Some (JBool b)) = (\<not> b)"
| "falsy (Some (JNum n)) = (n = ''0'')"
| "falsy (Some (JStr s)) = (s = [])"
| "falsy (Some (JArr xs)) = False"
| "falsy (Some (JObj kvs)) = False"

text \<open>\<^verbatim>\<open>typeof v === "object"\<close>: true of \<^verbatim>\<open>null\<close>, of arrays and of objects.\<close>

fun typeof_object :: "json option \<Rightarrow> bool" where
  "typeof_object (Some JNull) = True"
| "typeof_object (Some (JArr xs)) = True"
| "typeof_object (Some (JObj kvs)) = True"
| "typeof_object _ = False"

text \<open>\<^verbatim>\<open>xs.join(sep)\<close> on strings.\<close>

fun join :: "string \<Rightarrow> string list \<Rightarrow> string" where
  "join sep [] = []"
| "join sep [x] = x"
| "join sep (x # y # ys) = x @ sep @ join sep (y # ys)"

section \<open>The relay server: request validation\<close>

definition MODELS :: "string list" where
  "MODELS = [''claude-opus-4-5-20250514'', ''claude-sonnet-4-20250514'',
             ''claude-haiku-3-5-20241022'']"

datatype role = user | assistant

record message =
  role :: role
  content :: string

record ChatRequest =
  model :: string
  system :: string
  messages :: "message list"

text \<open>The text \<^verbatim>\<open>Message role must be 'user' or 'assistant'\<close>.\<close>

definition role_error :: string where
  "role_error = ''Message role must be '' @ [CHR 0x27] @ ''user'' @ [CHR 0x27] @ '' or ''
                @ [CHR 0x27] @ ''assistant'' @ [CHR 0x27]"

text \<open>
  The loop of \<open>validateRequest\<close> over \<open>messages\<close>. A message that passes has a role that
  is one of the two literals and a string content; the validated array is the same array,
  of which the relay reads \<open>role\<close> and \<open>content\<close> only, so it is returned in that view.
\<close>

fun validateMessages :: "json list \<Rightarrow> string + message list" where
  "validateMessages [] = Inr []"
| "validateMessages (msg # rest) =
     (if falsy (Some msg) \<or> \<not> typeof_object (Some msg)
      then Inl ''Each message must be an object''
      else if get_prop msg ''role'' \<noteq> Some (JStr ''user'')
              \<and> get_prop msg ''role'' \<noteq> Some (JStr ''assistant'')
      then Inl role_error
      else (case get_prop msg ''content'' of
              Some (JStr c) \<Rightarrow>
                (case validateMessages rest of
                   Inl e \<Rightarrow> Inl e
                 | Inr ms \<Rightarrow>
                     Inr (\<lparr>role = (if get_prop msg ''role'' = Some (JStr ''user'')
                                      then user else assistant),
                           content = c\<rparr> # ms))
            | _ \<Rightarrow> Inl ''Message content must be a string''))"

text \<open>\<^verbatim>\<open>MODELS.includes(model)\<close>: only a string equal to a member is included.\<close>

fun models_include :: "json option \<Rightarrow> bool" where
  "models_include (Some (JStr m)) = (m \<in> set MODELS)"
| "models_include _ = False"

definition validateRequest :: "json \<Rightarrow> string + ChatRequest" where
  "validateRequest body =
     (if falsy (Some body) \<or> \<not> typeof_object (Some body)
      then Inl ''Invalid request body''
      else if falsy (get_prop body ''model'') \<or> \<not> models_include (get_prop body ''model'')
      then Inl (''Invalid model. Must be one of: '' @ join '', '' MODELS)
      else if get_prop body ''system'' \<noteq> None
              \<and> (case get_prop body ''system'' of Some (JStr s) \<Rightarrow> False | _ \<Rightarrow> True)
      then Inl ''System prompt must be a string''
      else (case get_prop body ''messages'' of
              Some (JArr msgs) \<Rightarrow>
                (case validateMessages msgs of
                   Inl e \<Rightarrow> Inl e
                 | Inr ms \<Rightarrow>
                     Inr \<lparr>model = (case get_prop body ''model'' of Some (JStr m) \<Rightarrow> m | _ \<Rightarrow> []),
                          system = (case get_prop body ''system'' of Some (JStr s) \<Rightarrow> s | _ \<Rightarrow> []),
                          messages = ms\<rparr>)
            | _ \<Rightarrow> Inl ''Messages must be an array''))"

section \<open>The relay server: the upstream call and the event stream\<close>

text \<open>
  What a \<^verbatim>\<open>throw\<close> carries: an \<^verbatim>\<open>Error\<close> with its message, or some other value.
\<close>

datatype thrown = Error string | NonError

text \<open>\<^verbatim>\<open>error instanceof Error ? error.message : "Unknown error"\<close>\<close>

fun errorMsg :: "thrown \<Rightarrow> string" where
  "errorMsg (Error m) = m"
| "errorMsg NonError = ''Unknown error''"

text \<open>
  The events of the upstream stream, as far as the relay tells them apart: the type of the
  event, and for a \<open>content_block_delta\<close> the type of its delta.
\<close>

datatype delta = text_delta string | other_delta

datatype upstream_event = content_block_delta delta | message_stop | other_event

text \<open>
  One upstream call, as the relay meets it: the events the iterator yields, then the end of
  the iteration (\<open>failure = None\<close>) or the exception it raises; and what
  \<^verbatim>\<open>stream.finalMessage()\<close> gives, the usage of the final message or an exception.
\<close>

record upstream =
  events :: "upstream_event list"
  failure :: "thrown option"
  finalMessage :: "thrown + json"

text \<open>
  The controller of the response stream: the payloads enqueued so far (each one is sent as
  the frame \<^verbatim>\<open>data: <JSON>\n\n\<close>), and how often \<^verbatim>\<open>close\<close> went through. Enqueueing on
  a closed controller and closing it again raise a \<^verbatim>\<open>TypeError\<close>. The reader of the
  response does not cancel the stream while \<open>start\<close> runs.
\<close>

record controller =
  frames :: "json list"
  closes :: nat

definition new_controller :: controller where
  "new_controller = \<lparr>frames = [], closes = 0\<rparr>"

definition enqueue :: "controller \<Rightarrow> json \<Rightarrow> thrown + controller" where
  "enqueue c payload =
     (if closes c > 0 then Inl (Error ''Invalid state: Controller is already closed'')
      else Inr (c\<lparr>frames := frames c @ [payload]\<rparr>))"

definition close :: "controller \<Rightarrow> thrown + controller" where
  "close c =
     (if closes c > 0 then Inl (Error ''Invalid state: Controller is already closed'')
      else Inr (c\<lparr>closes := Suc (closes c)\<rparr>))"

definition delta_event :: "string \<Rightarrow> json" where
  "delta_event t = JObj [(''type'', JStr ''delta''), (''text'', JStr t)]"

definition done_event :: "json \<Rightarrow> json" where
  "done_event usage = JObj [(''type'', JStr ''done''), (''usage'', usage)]"

definition error_event :: "string \<Rightarrow> json" where
  "error_event m = JObj [(''type'', JStr ''error''), (''error'', JStr m)]"

text \<open>
  The body of the \<^verbatim>\<open>try\<close>: the \<^verbatim>\<open>for await\<close> loop. The result is the controller and
  the exception that left the loop, if one did.
\<close>

fun for_await ::
  "(thrown + json) \<Rightarrow> upstream_event list \<Rightarrow> thrown option \<Rightarrow> controller
     \<Rightarrow> controller \<times> thrown option" where
  "for_await final [] raised c = (c, raised)"
| "for_await final (content_block_delta (text_delta t) # evs) raised c =
     (case enqueue c (delta_event t) of
        Inl e \<Rightarrow> (c, Some e)
      | Inr c' \<Rightarrow> for_await final evs raised c')"
| "for_await final (message_stop # evs) raised c =
     (case final of
        Inl e \<Rightarrow> (c, Some e)
      | Inr usage \<Rightarrow>
          (case enqueue c (done_event usage) of
             Inl e \<Rightarrow> (c, Some e)
           | Inr c' \<Rightarrow> for_await final evs raised c'))"
| "for_await final (_ # evs) raised c = for_await final evs raised c"

text \<open>
  \<^verbatim>\<open>start(controller)\<close>: the loop, the \<^verbatim>\<open>catch\<close> that enqueues the error event, and the
  \<^verbatim>\<open>finally\<close> that closes. The second component is the exception that leaves \<open>start\<close>.
\<close>

definition start :: "upstream \<Rightarrow> controller \<Rightarrow> controller \<times> thrown option" where
  "start up c =
     (let (c1, raised) = for_await (finalMessage up) (events up) (failure up) c;
          (c2, escaping) =
             (case raised of
                None \<Rightarrow> (c1, None)
              | Some e \<Rightarrow>
                  (case enqueue c1 (error_event (errorMsg e)) of
                     Inl e' \<Rightarrow> (c1, Some e')
                   | Inr c' \<Rightarrow> (c', None)))
      in (case close c2 of
            Inl e' \<Rightarrow> (c2, Some e')
          | Inr c3 \<Rightarrow> (c3, escaping)))"

text \<open>
  The parameters of \<^verbatim>\<open>client.messages.stream\<close>. A text block carries its text and whether
  it has the cache directive \<^verbatim>\<open>{ type: "ephemeral", ttl: "1h" }\<close>.
\<close>

record text_block =
  block_text :: string
  cache_control :: bool

record message_param =
  param_role :: role
  param_content :: "text_block list"

record stream_params =
  stream_model :: string
  max_tokens :: nat
  stream_system :: "text_block list"
  stream_messages :: "message_param list"

definition systemContent :: "string \<Rightarrow> text_block list" where
  "systemContent sys = (if sys \<noteq> [] then [\<lparr>block_text = sys, cache_control = True\<rparr>] else [])"

definition formattedMessages :: "message list \<Rightarrow> message_param list" where
  "formattedMessages ms =
     map (\<lambda>(i, m). \<lparr>param_role = role m,
                     param_content = [\<lparr>block_text = content m,
                                             cache_control = (int i = int (length ms) - 2)\<rparr>]\<rparr>)
         (enumerate 0 ms)"

text \<open>
  The response of \<open>handleChat\<close>, and the upstream calls it made. The body is the JSON of
  an error, or the event stream as \<open>start\<close> leaves it.
\<close>

datatype response_body = JsonBody json | EventStream "controller \<times> thrown option"

record response =
  status :: nat
  headers :: "(string \<times> string) list"
  body :: response_body

text \<open>
  \<open>handleChat\<close>. The request body is given as what \<^verbatim>\<open>req.json()\<close> makes of it: \<open>None\<close>
  when it throws. The upstream API is a parameter: what a call with given parameters
  streams.
\<close>

definition handleChat ::
  "(stream_params \<Rightarrow> upstream) \<Rightarrow> json option \<Rightarrow> response \<times> stream_params list" where
  "handleChat api parsed =
     (case parsed of
        None \<Rightarrow>
          (\<lparr>status = 400, headers = [(''Content-Type'', ''application/json'')],
            body = JsonBody (JObj [(''error'', JStr ''Invalid JSON'')])\<rparr>, [])
      | Some b \<Rightarrow>
          (case validateRequest b of
             Inl err \<Rightarrow>
               (\<lparr>status = 400, headers = [(''Content-Type'', ''application/json'')],
                 body = JsonBody (JObj [(''error'', JStr err)])\<rparr>, [])
           | Inr data \<Rightarrow>
               (let params = \<lparr>stream_model = model data, max_tokens = 8192,
                               stream_system = systemContent (system data),
                               stream_messages = formattedMessages (messages data)\<rparr>
                in (\<lparr>status = 200,
                     headers = [(''Content-Type'', ''text/event-stream''),
                                (''Cache-Control'', ''no-cache''),
                                (''Connection'', ''keep-alive'')],
                     body = EventStream (start (api params) new_controller)\<rparr>,
                    [params]))))"

section \<open>The browser client: rendering\<close>

subsection \<open>String operations of the platform\<close>

abbreviation newline :: char where "newline \<equiv> CHR 0x0A"

abbreviation backtick :: char where "backtick \<equiv> CHR 0x60"

text \<open>\<^verbatim>\<open>s.startsWith(p)\<close> and \<^verbatim>\<open>s.includes(p)\<close>.\<close>

definition starts_with :: "string \<Rightarrow> string \<Rightarrow> bool" where
  "starts_with p s = (take (length p) s = p)"

fun str_includes :: "string \<Rightarrow> string \<Rightarrow> bool" where
  "str_includes p [] = (p = [])"
| "str_includes p (c # cs) = (starts_with p (c # cs) \<or> str_includes p cs)"

text \<open>
  \<^verbatim>\<open>s.split(sep)\<close>: the pieces between the occurrences of the separator, found from left
  to right; with the empty separator, the code units.
\<close>

fun split :: "string \<Rightarrow> string \<Rightarrow> string list" where
  "split sep [] = (if sep = [] then [] else [[]])"
| "split sep (c # cs) =
     (if sep = [] then [c] # split sep cs
      else if starts_with sep (c # cs) then [] # split sep (drop (length sep) (c # cs))
      else (case split sep cs of [] \<Rightarrow> [[c]] | p # ps \<Rightarrow> (c # p) # ps))"

text \<open>
  \<^verbatim>\<open>s.trim()\<close>: white space and line terminators are cut from both ends. Among the code
  units below 256 these are tab, line feed, vertical tab, form feed, carriage return,
  space and the no-break space.
\<close>

definition white_space :: "char \<Rightarrow> bool" where
  "white_space c = (c \<in> {CHR 0x09, CHR 0x0A, CHR 0x0B, CHR 0x0C, CHR 0x0D, CHR 0x20, CHR 0xA0})"

definition trim :: "string \<Rightarrow> string" where
  "trim s = rev (dropWhile white_space (rev (dropWhile white_space s)))"

text \<open>The class \<^verbatim>\<open>\w\<close> of a regular expression: letters, digits and the underscore.\<close>

definition word_char :: "char \<Rightarrow> bool" where
  "word_char c =
     (let n = (of_char c :: nat)
      in (97 \<le> n \<and> n \<le> 122) \<or> (65 \<le> n \<and> n \<le> 90) \<or> (48 \<le> n \<and> n \<le> 57) \<or> n = 95)"

text \<open>\<^verbatim>\<open>s.indexOf(p)\<close>, \<open>None\<close> for \<^verbatim>\<open>-1\<close>.\<close>

fun index_of :: "string \<Rightarrow> string \<Rightarrow> nat option" where
  "index_of p [] = (if p = [] then Some 0 else None)"
| "index_of p (c # cs) =
     (if starts_with p (c # cs) then Some 0 else map_option Suc (index_of p cs))"

subsection \<open>\<open>escapeHtml\<close> and \<open>formatContent\<close>\<close>

text \<open>
  \<open>escapeHtml\<close> sets the text as the text content of an element and reads the element's
  \<^verbatim>\<open>innerHTML\<close>: the serialization of a text node, which writes \<^verbatim>\<open>&\<close>, \<^verbatim>\<open><\<close>, \<^verbatim>\<open>>\<close> and the
  no-break space as character references and every other character as it is.
\<close>

fun escape_char :: "char \<Rightarrow> string" where
  "escape_char c =
     (if c = CHR ''&'' then ''&amp;''
      else if c = CHR ''<'' then ''&lt;''
      else if c = CHR ''>'' then ''&gt;''
      else if c = CHR 0xA0 then ''&nbsp;''
      else [c])"

definition escapeHtml :: "string \<Rightarrow> string" where
  "escapeHtml text = concat (map escape_char text)"

text \<open>
  A match of \<^verbatim>\<open>/```(\w*)\n?([\s\S]*?)```/\<close> at the start of a string: three backticks, the
  longest run of word characters, a line feed if there is one, and then the shortest text
  up to the next three backticks. No character of the run or the line feed is a backtick,
  so backtracking finds no other match. The result is the second group and the text after
  the match.
\<close>

definition fence :: string where
  "fence = [backtick, backtick, backtick]"

definition fence_match :: "string \<Rightarrow> (string \<times> string) option" where
  "fence_match s =
     (if starts_with fence s
      then (let after_lang = dropWhile word_char (drop 3 s);
                rest = (case after_lang of
                          [] \<Rightarrow> []
                        | c # cs \<Rightarrow> if c = newline then cs else c # cs)
            in (case index_of fence rest of
                  None \<Rightarrow> None
                | Some k \<Rightarrow> Some (take k rest, drop (k + 3) rest)))
      else None)"

lemma fence_match_shorter:
  assumes "fence_match s = Some (code, r)"
  shows "length r < length s"
proof -
  define after_lang where "after_lang = dropWhile word_char (drop 3 s)"
  define rest where
    "rest = (case after_lang of [] \<Rightarrow> [] | c # cs \<Rightarrow> if c = newline then cs else c # cs)"
  from assms have sw: "starts_with fence s"
    by (simp add: fence_match_def split: if_splits)
  then have "take (length fence) s = fence"
    by (simp only: starts_with_def)
  then have "length (take (length fence) s) = length fence"
    by (rule arg_cong)
  then have 3: "3 \<le> length s"
    by (simp add: fence_def)
  have 1: "length rest \<le> length after_lang"
    by (simp add: rest_def split: list.split)
  have 2: "length after_lang \<le> length s - 3"
    unfolding after_lang_def using length_dropWhile_le [of word_char "drop 3 s"] by simp
  from assms sw obtain k where "r = drop (k + 3) rest"
    by (auto simp: fence_match_def Let_def after_lang_def rest_def split: option.splits)
  then have "length r \<le> length rest" by simp
  with 1 2 3 show ?thesis by linarith
qed

text \<open>
  \<^verbatim>\<open>escaped.replace(/```(\w*)\n?([\s\S]*?)```/g, (_, lang, code) => `<pre><code>${code}</code></pre>`)\<close>:
  the matches are looked for from left to right, each search starting where the last match
  ended; the text between the matches is kept.
\<close>

function code_blocks :: "string \<Rightarrow> string" where
  "code_blocks [] = []"
| "code_blocks (c # cs) =
     (case fence_match (c # cs) of
        Some (code, r) \<Rightarrow> ''<pre><code>'' @ code @ ''</code></pre>'' @ code_blocks r
      | None \<Rightarrow> c # code_blocks cs)"
  by pat_completeness auto
termination
  by (relation "measure length") (auto dest: fence_match_shorter)

text \<open>
  A match of \<^verbatim>\<open>/`([^`]+)`/\<close> at the start of a string: a backtick, the run of characters up
  to the next backtick, which must not be empty, and that backtick. The result is the
  group and the text after the match.
\<close>

definition tick_match :: "string \<Rightarrow> (string \<times> string) option" where
  "tick_match s =
     (case s of
        [] \<Rightarrow> None
      | c # cs \<Rightarrow>
          if c = backtick \<and> takeWhile (\<lambda>x. x \<noteq> backtick) cs \<noteq> []
             \<and> dropWhile (\<lambda>x. x \<noteq> backtick) cs \<noteq> []
          then Some (takeWhile (\<lambda>x. x \<noteq> backtick) cs, tl (dropWhile (\<lambda>x. x \<noteq> backtick) cs))
          else None)"

lemma tick_match_shorter:
  assumes "tick_match s = Some (code, r)"
  shows "length r < length s"
proof -
  from assms obtain c cs where s: "s = c # cs"
    and r: "r = tl (dropWhile (\<lambda>x. x \<noteq> backtick) cs)"
    by (auto simp: tick_match_def split: list.splits if_splits)
  have "length r \<le> length (dropWhile (\<lambda>x. x \<noteq> backtick) cs)"
    by (simp add: r)
  also have "\<dots> \<le> length cs" by (rule length_dropWhile_le)
  finally show ?thesis by (simp add: s)
qed

text \<open>\<^verbatim>\<open>escaped.replace(/`([^`]+)`/g, '<code>$1</code>')\<close>\<close>

function inline_code :: "string \<Rightarrow> string" where
  "inline_code [] = []"
| "inline_code (c # cs) =
     (case tick_match (c # cs) of
        Some (code, r) \<Rightarrow> ''<code>'' @ code @ ''</code>'' @ inline_code r
      | None \<Rightarrow> c # inline_code cs)"
  by pat_completeness auto
termination
  by (relation "measure length") (auto dest: tick_match_shorter)

text \<open>\<^verbatim>\<open>escaped.split('\n\n').map(p => p.trim() ? `<p>${p}</p>` : '').join('')\<close>\<close>

definition paragraphs :: "string \<Rightarrow> string" where
  "paragraphs s =
     concat (map (\<lambda>p. if trim p \<noteq> [] then ''<p>'' @ p @ ''</p>'' else [])
                 (split [newline, newline] s))"

definition formatContent :: "string \<Rightarrow> string" where
  "formatContent text =
     (if text = [] then []
      else paragraphs (inline_code (code_blocks (escapeHtml text))))"


section \<open>The browser client: consuming the stream\<close>

subsection \<open>What the platform does\<close>

text \<open>
  \<^verbatim>\<open>JSON.parse\<close> belongs to the browser and is a parameter: it gives the value, or the
  message of the \<^verbatim>\<open>SyntaxError\<close> it throws. So are the messages of the two
  \<^verbatim>\<open>TypeError\<close>s that the code can meet: reading a property of \<^verbatim>\<open>null\<close>, and turning
  into a string an object that has no callable \<^verbatim>\<open>toString\<close>.
\<close>

record platform =
  parse :: "string \<Rightarrow> string + json"
  null_error :: string
  primitive_error :: string

text \<open>
  The string a parsed value turns into, in \<^verbatim>\<open>fullContent += data.text\<close> and in
  \<^verbatim>\<open>new Error(data.error)\<close>; \<open>None\<close> when the conversion throws. An array joins its
  elements with commas, \<^verbatim>\<open>null\<close> elements as empty strings. An object prints as
  \<^verbatim>\<open>[object Object]\<close>, unless it has a member \<open>toString\<close> of its own, which is not a
  function: then no method gives a primitive value.
\<close>

fun to_string :: "json \<Rightarrow> string option" where
  "to_string JNull = Some ''null''"
| "to_string (JBool b) = Some (if b then ''true'' else ''false'')"
| "to_string (JNum n) = Some n"
| "to_string (JStr s) = Some s"
| "to_string (JArr xs) =
     map_option (join '','')
       (those (map (\<lambda>x. if x = JNull then Some [] else to_string x) xs))"
| "to_string (JObj kvs) =
     (if ''toString'' \<in> fst ` set kvs then None else Some ''[object Object]'')"

subsection \<open>One line of the stream\<close>

text \<open>What \<open>streamResponse\<close> keeps of the reply: the text so far and what the page shows.\<close>

record rendering =
  fullContent :: string
  innerHTML :: string

text \<open>
  The body of the inner \<^verbatim>\<open>try\<close>, for a line that starts with \<^verbatim>\<open>data: \<close>: the new
  rendering, or the message of the error thrown. Nothing is changed before a throw.
\<close>

definition dispatch :: "platform \<Rightarrow> rendering \<Rightarrow> string \<Rightarrow> string + rendering" where
  "dispatch pf v line =
     (case parse pf (drop 6 line) of
        Inl m \<Rightarrow> Inl m
      | Inr JNull \<Rightarrow> Inl (null_error pf)
      | Inr data \<Rightarrow>
          if get_prop data ''type'' = Some (JStr ''delta'')
          then (case (case get_prop data ''text'' of
                        None \<Rightarrow> Some ''undefined''
                      | Some t \<Rightarrow> to_string t) of
                  None \<Rightarrow> Inl (primitive_error pf)
                | Some t \<Rightarrow>
                    Inr \<lparr>fullContent = fullContent v @ t,
                         innerHTML = formatContent (fullContent v @ t)\<rparr>)
          else if get_prop data ''type'' = Some (JStr ''done'') then Inr v
          else if get_prop data ''type'' = Some (JStr ''error'')
          then (case (case get_prop data ''error'' of
                        None \<Rightarrow> Some []
                      | Some e \<Rightarrow> to_string e) of
                  None \<Rightarrow> Inl (primitive_error pf)
                | Some m \<Rightarrow> Inl m)
          else Inr v)"

text \<open>
  One turn of \<^verbatim>\<open>for (const line of lines)\<close>, with the \<^verbatim>\<open>catch\<close>:
  \<^verbatim>\<open>if (e.message && !e.message.includes("JSON")) throw e;\<close>
\<close>

definition handle_line :: "platform \<Rightarrow> rendering \<Rightarrow> string \<Rightarrow> string + rendering" where
  "handle_line pf v line =
     (if \<not> starts_with ''data: '' line then Inr v
      else (case dispatch pf v line of
              Inr v' \<Rightarrow> Inr v'
            | Inl m \<Rightarrow> if m \<noteq> [] \<and> \<not> str_includes ''JSON'' m then Inl m else Inr v))"

fun process_lines :: "platform \<Rightarrow> rendering \<Rightarrow> string list \<Rightarrow> string + rendering" where
  "process_lines pf v [] = Inr v"
| "process_lines pf v (line # lines) =
     (case handle_line pf v line of
        Inl m \<Rightarrow> Inl m
      | Inr v' \<Rightarrow> process_lines pf v' lines)"

subsection \<open>The read loop and \<open>streamResponse\<close>\<close>

text \<open>
  The \<^verbatim>\<open>while (true)\<close> loop over the reads of the body. The reads are given as the texts
  the decoder makes of them, and \<open>read_error\<close> is what a read throws when they are used up,
  if it throws. The result is the rendering with the buffer, or what was thrown.
\<close>

fun read_loop ::
  "platform \<Rightarrow> thrown option \<Rightarrow> rendering \<Rightarrow> string \<Rightarrow> string list
     \<Rightarrow> thrown + rendering \<times> string" where
  "read_loop pf read_error v buffer [] =
     (case read_error of None \<Rightarrow> Inr (v, buffer) | Some e \<Rightarrow> Inl e)"
| "read_loop pf read_error v buffer (chunk # chunks) =
     (let lines = split [newline] (buffer @ chunk)
      in (case process_lines pf v (butlast lines) of
            Inl m \<Rightarrow> Inl (Error m)
          | Inr v' \<Rightarrow> read_loop pf read_error v' (last lines) chunks))"

text \<open>The last event, from what is left in the buffer; every error is ignored.\<close>

definition flush_buffer :: "platform \<Rightarrow> rendering \<Rightarrow> string \<Rightarrow> rendering" where
  "flush_buffer pf v buffer =
     (if starts_with ''data: '' buffer
      then (case parse pf (drop 6 buffer) of
              Inl m \<Rightarrow> v
            | Inr JNull \<Rightarrow> v
            | Inr data \<Rightarrow>
                if get_prop data ''type'' = Some (JStr ''delta'')
                then (case (case get_prop data ''text'' of
                              None \<Rightarrow> Some ''undefined''
                            | Some t \<Rightarrow> to_string t) of
                        None \<Rightarrow> v
                      | Some t \<Rightarrow>
                          \<lparr>fullContent = fullContent v @ t,
                           innerHTML = formatContent (fullContent v @ t)\<rparr>)
                else v)
      else v)"

text \<open>
  The state of the page: the transcript \<^verbatim>\<open>state.messages\<close>, the streaming flag, and of the
  element of the assistant message its \<^verbatim>\<open>innerHTML\<close> and whether it has the class
  \<open>loading\<close>.
\<close>

record client =
  state_messages :: "message list"
  isStreaming :: bool
  assistantHTML :: string
  loading :: bool

text \<open>
  What \<^verbatim>\<open>fetch\<close> comes back with: a rejection; a response that is not \<open>ok\<close>, with its text
  and its status as printed; a response without a body; or a body, as its reads.
\<close>

datatype fetched =
    Rejected thrown
  | NotOk string string
  | NoBody
  | Body "string list" "thrown option"

text \<open>
  \<open>streamResponse\<close>, from the state before it to the state after its \<^verbatim>\<open>finally\<close>.
\<close>

definition streamResponse :: "platform \<Rightarrow> fetched \<Rightarrow> client \<Rightarrow> client" where
  "streamResponse pf response st =
     (let outcome =
            (case response of
               Rejected e \<Rightarrow> Inl e
             | NotOk errorText status_text \<Rightarrow>
                 Inl (Error (if errorText \<noteq> [] then errorText else ''HTTP '' @ status_text))
             | NoBody \<Rightarrow> Inl (Error ''No response body'')
             | Body chunks read_error \<Rightarrow>
                 (case read_loop pf read_error
                         \<lparr>fullContent = [], innerHTML = formatContent []\<rparr> [] chunks of
                    Inl e \<Rightarrow> Inl e
                  | Inr (v, buffer) \<Rightarrow> Inr (flush_buffer pf v buffer)))
      in (case outcome of
            Inr v \<Rightarrow>
              st\<lparr>state_messages := state_messages st @ [\<lparr>role = assistant, content = fullContent v\<rparr>],
                 isStreaming := False, assistantHTML := innerHTML v, loading := False\<rparr>
          | Inl e \<Rightarrow>
              st\<lparr>isStreaming := False,
                 assistantHTML := formatContent (''Error: '' @ errorMsg e),
                 loading := False\<rparr>))"

subsection \<open>A platform for the examples\<close>

text \<open>
  The examples below need a \<^verbatim>\<open>JSON.parse\<close> to run on. This one knows the payloads of a
  table and gives for every other text the \<^verbatim>\<open>SyntaxError\<close> of V8 for an input that ends
  early; its \<^verbatim>\<open>TypeError\<close> messages are those of V8.
\<close>

definition quoted :: "string \<Rightarrow> string" where
  "quoted s = [CHR 0x22] @ s @ [CHR 0x22]"

definition delta_payload :: "string \<Rightarrow> string" where
  "delta_payload t =
     ''{'' @ quoted ''type'' @ '':'' @ quoted ''delta'' @ '','' @ quoted ''text'' @ '':''
     @ quoted t @ ''}''"

definition error_payload :: "string \<Rightarrow> string" where
  "error_payload m =
     ''{'' @ quoted ''type'' @ '':'' @ quoted ''error'' @ '','' @ quoted ''error'' @ '':''
     @ quoted m @ ''}''"

definition table_platform :: "(string \<times> json) list \<Rightarrow> platform" where
  "table_platform table =
     \<lparr>parse = (\<lambda>s. case map_of table s of
                       Some j \<Rightarrow> Inr j
                     | None \<Rightarrow> Inl ''Unexpected end of JSON input''),
      null_error = ''Cannot read properties of null (reading '' @ [CHR 0x27] @ ''type''
                   @ [CHR 0x27] @ '')'',
      primitive_error = ''Cannot convert object to primitive value''\<rparr>"

definition example_platform :: platform where
  "example_platform =
     table_platform
       [(delta_payload ''hello'', delta_event ''hello''),
        (delta_payload ''Hi'', delta_event ''Hi''),
        (error_payload ''Overloaded'', error_event ''Overloaded''),
        (error_payload ''Unexpected end of JSON input'',
         error_event ''Unexpected end of JSON input'')]"

text \<open>
  A frame \<^verbatim>\<open>data: {"type":"delta","text":"hello"}\<close> with its blank line, cut inside the
  text into two reads.
\<close>

definition split_frame_1 :: string where
  "split_frame_1 =
     ''data: {'' @ quoted ''type'' @ '':'' @ quoted ''delta'' @ '','' @ quoted ''text'' @ '':''
     @ [CHR 0x22] @ ''hel''"

definition split_frame_2 :: string where
  "split_frame_2 = ''lo'' @ [CHR 0x22] @ ''}'' @ [newline, newline]"


section \<open>Notions the properties are stated with\<close>

subsection \<open>Reading the frames of a response\<close>

text \<open>The \<open>type\<close> tag of an enqueued payload.\<close>

definition event_type :: "json \<Rightarrow> string option" where
  "event_type f = (case get_prop f ''type'' of Some (JStr t) \<Rightarrow> Some t | _ \<Rightarrow> None)"

definition is_delta :: "json \<Rightarrow> bool" where
  "is_delta f = (event_type f = Some ''delta'')"

text \<open>The terminal events are \<open>done\<close> and \<open>error\<close>.\<close>

definition is_terminal :: "json \<Rightarrow> bool" where
  "is_terminal f = (event_type f = Some ''done'' \<or> event_type f = Some ''error'')"

text \<open>
  The frames of a stream hold exactly one terminal event, it is the last frame, and every
  frame before it is a \<open>delta\<close>.
\<close>

definition one_terminal_last :: "json list \<Rightarrow> bool" where
  "one_terminal_last fs = (fs \<noteq> [] \<and> is_terminal (last fs) \<and> list_all is_delta (butlast fs))"

text \<open>The \<open>text\<close> fields of the \<open>delta\<close> frames, in emission order.\<close>

fun delta_text :: "json \<Rightarrow> string option" where
  "delta_text f = (if is_delta f then (case get_prop f ''text'' of Some (JStr t) \<Rightarrow> Some t | _ \<Rightarrow> None) else None)"

definition delta_texts :: "json list \<Rightarrow> string list" where
  "delta_texts fs = List.map_filter delta_text fs"

text \<open>The text fragments the upstream stream delivers, in order.\<close>

fun text_fragments :: "upstream_event list \<Rightarrow> string list" where
  "text_fragments [] = []"
| "text_fragments (content_block_delta (text_delta t) # evs) = t # text_fragments evs"
| "text_fragments (_ # evs) = text_fragments evs"

text \<open>
  The upstream stream keeps to its streaming protocol: when the iteration ends, its last
  event is the only \<open>message_stop\<close>; when it raises, no \<open>message_stop\<close> came before.
\<close>

definition protocol_ok :: "upstream \<Rightarrow> bool" where
  "protocol_ok up =
     (case failure up of
        None \<Rightarrow> events up \<noteq> [] \<and> last (events up) = message_stop
                 \<and> message_stop \<notin> set (butlast (events up))
      | Some e \<Rightarrow> message_stop \<notin> set (events up))"

text \<open>
  What the loop enqueues on an open controller, and the exception that leaves it: the
  loop without the controller.
\<close>

fun relayed :: "(thrown + json) \<Rightarrow> upstream_event list \<Rightarrow> thrown option \<Rightarrow> json list \<times> thrown option" where
  "relayed final [] raised = ([], raised)"
| "relayed final (content_block_delta (text_delta t) # evs) raised =
     (delta_event t # fst (relayed final evs raised), snd (relayed final evs raised))"
| "relayed final (message_stop # evs) raised =
     (case final of
        Inl e \<Rightarrow> ([], Some e)
      | Inr usage \<Rightarrow> (done_event usage # fst (relayed final evs raised), snd (relayed final evs raised)))"
| "relayed final (_ # evs) raised = relayed final evs raised"

subsection \<open>The reply and the token limit of the call\<close>

text \<open>
  The assistant reply a response carries: the texts of its \<open>delta\<close> frames, put together.
\<close>

definition relayed_reply :: "response \<Rightarrow> string" where
  "relayed_reply r =
     (case body r of
        EventStream s \<Rightarrow> concat (delta_texts (frames (fst s)))
      | JsonBody j \<Rightarrow> [])"

text \<open>
  The upstream keeps to the \<open>max_tokens\<close> of a call: at no point of the stream does the
  text sent so far have more tokens. The number of tokens of a text is the upstream's
  count, a parameter.
\<close>

definition within_max_tokens :: "(string \<Rightarrow> nat) \<Rightarrow> stream_params \<Rightarrow> upstream \<Rightarrow> bool" where
  "within_max_tokens tokens p up =
     list_all (\<lambda>k. tokens (concat (take k (text_fragments (events up)))) \<le> max_tokens p)
       [0..<Suc (length (text_fragments (events up)))]"

subsection \<open>The constraints on a chat request\<close>

text \<open>
  The constraints of the request validator, in the order they are checked. The report of a
  body lists every constraint it violates, in that order, each one judged on its own; a
  message contributes its shape, its role and its content. The shape of a value is a
  parameter: \<open>is_object\<close> holds of JSON objects only, \<open>is_object_or_array\<close> of every
  non-null value whose \<^verbatim>\<open>typeof\<close> is \<^verbatim>\<open>"object"\<close>.
\<close>

datatype constraint =
  BodyShape | Model | SystemType | MessagesSequence | MessageShape | MessageRole | MessageContent

fun is_object :: "json \<Rightarrow> bool" where
  "is_object (JObj kvs) = True"
| "is_object _ = False"

fun is_object_or_array :: "json \<Rightarrow> bool" where
  "is_object_or_array (JObj kvs) = True"
| "is_object_or_array (JArr xs) = True"
| "is_object_or_array _ = False"

fun is_string :: "json option \<Rightarrow> bool" where
  "is_string (Some (JStr s)) = True"
| "is_string _ = False"

definition supported_model :: "json option \<Rightarrow> bool" where
  "supported_model v = (\<exists>m \<in> set MODELS. v = Some (JStr m))"

definition message_violations :: "(json \<Rightarrow> bool) \<Rightarrow> json \<Rightarrow> constraint list" where
  "message_violations shape m =
     (if shape m then [] else [MessageShape])
     @ (if get_prop m ''role'' = Some (JStr ''user'') \<or> get_prop m ''role'' = Some (JStr ''assistant'')
        then [] else [MessageRole])
     @ (if is_string (get_prop m ''content'') then [] else [MessageContent])"

fun messages_violations :: "(json \<Rightarrow> bool) \<Rightarrow> json list \<Rightarrow> constraint list" where
  "messages_violations shape [] = []"
| "messages_violations shape (m # ms) = message_violations shape m @ messages_violations shape ms"

definition violations :: "(json \<Rightarrow> bool) \<Rightarrow> json \<Rightarrow> constraint list" where
  "violations shape b =
     (if shape b then [] else [BodyShape])
     @ (if supported_model (get_prop b ''model'') then [] else [Model])
     @ (if get_prop b ''system'' = None \<or> is_string (get_prop b ''system'') then [] else [SystemType])
     @ (case get_prop b ''messages'' of
          Some (JArr ms) \<Rightarrow> messages_violations shape ms
        | _ \<Rightarrow> [MessagesSequence])"

fun error_text :: "constraint \<Rightarrow> string" where
  "error_text BodyShape = ''Invalid request body''"
| "error_text Model = ''Invalid model. Must be one of: '' @ join '', '' MODELS"
| "error_text SystemType = ''System prompt must be a string''"
| "error_text MessagesSequence = ''Messages must be an array''"
| "error_text MessageShape = ''Each message must be an object''"
| "error_text MessageRole = role_error"
| "error_text MessageContent = ''Message content must be a string''"

definition message_view :: "json \<Rightarrow> message" where
  "message_view m =
     \<lparr>role = (if get_prop m ''role'' = Some (JStr ''user'') then user else assistant),
      content = (case get_prop m ''content'' of Some (JStr c) \<Rightarrow> c | _ \<Rightarrow> [])\<rparr>"

definition normalized :: "json \<Rightarrow> ChatRequest" where
  "normalized b =
     \<lparr>model = (case get_prop b ''model'' of Some (JStr m) \<Rightarrow> m | _ \<Rightarrow> []),
      system = (case get_prop b ''system'' of Some (JStr s) \<Rightarrow> s | _ \<Rightarrow> []),
      messages = (case get_prop b ''messages'' of Some (JArr ms) \<Rightarrow> map message_view ms | _ \<Rightarrow> [])\<rparr>"

text \<open>
  The validator as the specification words it: the normalized request when nothing is
  violated, otherwise the error of the first violated constraint.
\<close>

definition first_violation :: "(json \<Rightarrow> bool) \<Rightarrow> json \<Rightarrow> string + ChatRequest" where
  "first_violation shape b =
     (case violations shape b of [] \<Rightarrow> Inr (normalized b) | v # vs \<Rightarrow> Inl (error_text v))"

subsection \<open>Rendered text without markup of its own\<close>

text \<open>
  The only markup \<open>formatContent\<close> writes itself: the six tags of its replacements, and
  the four character references of \<open>escapeHtml\<close>.
\<close>

definition markup :: "string list" where
  "markup = [''<pre>'', ''</pre>'', ''<code>'', ''</code>'', ''<p>'', ''</p>'',
             ''&amp;'', ''&lt;'', ''&gt;'', ''&nbsp;'']"

text \<open>What follows a tag or a character reference at the start of a string.\<close>

definition strip_markup :: "string \<Rightarrow> string option" where
  "strip_markup s =
     (case filter (\<lambda>t. starts_with t s) markup of
        [] \<Rightarrow> None
      | t # ts \<Rightarrow> Some (drop (length t) s))"

lemma strip_markup_shorter:
  assumes "strip_markup s = Some r"
  shows "length r < length s"
proof -
  from assms obtain t ts where f: "filter (\<lambda>t. starts_with t s) markup = t # ts"
    and r: "r = drop (length t) s"
    by (auto simp: strip_markup_def split: list.splits)
  from f have "t \<in> set (filter (\<lambda>t. starts_with t s) markup)" by simp
  then have t: "t \<in> set markup" and sw: "starts_with t s" by simp_all
  from t have "t \<noteq> []" by (auto simp: markup_def)
  moreover from sw have "length (take (length t) s) = length t"
    by (simp only: starts_with_def)
  ultimately have "0 < length t" "length t \<le> length s" by simp_all
  moreover have "length r = length s - length t" by (simp add: r)
  ultimately show ?thesis by linarith
qed

text \<open>
  A rendered text is escaped when, read from the left, every \<^verbatim>\<open><\<close>, \<^verbatim>\<open>>\<close> and \<^verbatim>\<open>&\<close> in it
  starts one of these tags or character references: no other markup character occurs.
\<close>

function escaped_html :: "string \<Rightarrow> bool" where
  "escaped_html [] = True"
| "escaped_html (c # cs) =
     (if c \<in> {CHR ''<'', CHR ''>'', CHR ''&''}
      then (case strip_markup (c # cs) of None \<Rightarrow> False | Some r \<Rightarrow> escaped_html r)
      else escaped_html cs)"
  by pat_completeness auto
termination
  by (relation "measure length") (auto dest: strip_markup_shorter)

text \<open>The same, as the texts built from plain characters, tags and character references.\<close>

inductive escaped :: "string \<Rightarrow> bool" where
  empty: "escaped []"
| plain: "c \<notin> {CHR ''<'', CHR ''>'', CHR ''&''} \<Longrightarrow> escaped s \<Longrightarrow> escaped (c # s)"
| token: "t \<in> set markup \<Longrightarrow> escaped s \<Longrightarrow> escaped (t @ s)"

section \<open>Properties of the relay server\<close>

lemma for_await_relayed:
  "closes c = 0 \<Longrightarrow>
   for_await final evs raised c =
     (c\<lparr>frames := frames c @ fst (relayed final evs raised)\<rparr>, snd (relayed final evs raised))"
proof (induction final evs raised c rule: for_await.induct)
  case (1 final raised c)
  then show ?case by simp
next
  case (2 final t evs raised c)
  then show ?case by (simp add: enqueue_def)
next
  case (3 final evs raised c)
  then show ?case by (cases final) (simp_all add: enqueue_def)
qed simp_all

lemma start_relayed:
  "start up new_controller =
     (\<lparr>frames = fst (relayed (finalMessage up) (events up) (failure up))
                @ (case snd (relayed (finalMessage up) (events up) (failure up)) of
                     None \<Rightarrow> [] | Some e \<Rightarrow> [error_event (errorMsg e)]),
       closes = 1\<rparr>, None)"
  by (simp add: start_def for_await_relayed new_controller_def enqueue_def close_def
           split: option.split)

lemma event_type_simps [simp]:
  "event_type (delta_event t) = Some ''delta''"
  "event_type (done_event u) = Some ''done''"
  "event_type (error_event m) = Some ''error''"
  by (simp_all add: event_type_def delta_event_def done_event_def error_event_def)

lemma relayed_no_error:
  "\<forall>f \<in> set (fst (relayed final evs raised)). event_type f \<noteq> Some ''error''"
  by (induction final evs raised rule: relayed.induct) (auto split: sum.splits)

lemma relayed_raised:
  "snd (relayed final evs raised) = Some e \<Longrightarrow> raised = Some e \<or> final = Inl e"
  by (induction final evs raised rule: relayed.induct) (auto split: sum.splits)

lemma relayed_failure:
  "\<exists>e'. snd (relayed final evs (Some e)) = Some e'"
  by (induction final evs "Some e" rule: relayed.induct) (auto split: sum.splits)

lemma relayed_final_raises:
  "message_stop \<in> set evs \<Longrightarrow> snd (relayed (Inl e) evs raised) = Some e"
  by (induction "Inl e :: thrown + json" evs raised rule: relayed.induct) auto

lemma relayed_None:
  "snd (relayed final evs raised) = None \<Longrightarrow>
     delta_texts (fst (relayed final evs raised)) = text_fragments evs"
  by (induction final evs raised rule: relayed.induct)
     (auto simp: delta_texts_def List.map_filter_simps is_delta_def delta_event_def done_event_def event_type_def split: sum.splits)

lemma relayed_no_stop:
  "message_stop \<notin> set evs \<Longrightarrow>
     relayed final evs raised = (map delta_event (text_fragments evs), raised)"
  by (induction final evs raised rule: relayed.induct) auto

lemma relayed_append:
  "message_stop \<notin> set pre \<Longrightarrow>
     relayed final (pre @ evs) raised =
       (map delta_event (text_fragments pre) @ fst (relayed final evs raised),
        snd (relayed final evs raised))"
  by (induction final pre raised rule: relayed.induct) auto

subsection \<open>The event stream\<close>

text \<open>
  Claim C5. On every exit path of \<open>start\<close> the response stream is closed exactly once and no
  exception leaves \<open>start\<close>: the loop ends normally, the upstream raises at any point, or
  \<^verbatim>\<open>finalMessage\<close> raises inside the loop. When the upstream raises, or \<^verbatim>\<open>finalMessage\<close>
  raises at a \<open>message_stop\<close>, exactly one \<open>error\<close> event is enqueued, carrying the message
  of an exception that was raised, and it is the last frame, so that no \<open>delta\<close> follows it.
\<close>

theorem start_closes_once:
  "closes (fst (start up new_controller)) = 1 \<and> snd (start up new_controller) = None \<and>
   (\<forall>e. failure up = Some e \<or> (finalMessage up = Inl e \<and> message_stop \<in> set (events up)) \<longrightarrow>
      (\<exists>pre e'. frames (fst (start up new_controller)) = pre @ [error_event (errorMsg e')]
          \<and> (\<forall>f \<in> set pre. event_type f \<noteq> Some ''error'')
          \<and> (failure up = Some e' \<or> finalMessage up = Inl e')))"
proof -
  let ?r = "relayed (finalMessage up) (events up) (failure up)"
  have a: "closes (fst (start up new_controller)) = 1 \<and> snd (start up new_controller) = None"
    by (simp add: start_relayed)
  have b: "\<exists>pre e'. frames (fst (start up new_controller)) = pre @ [error_event (errorMsg e')]
          \<and> (\<forall>f \<in> set pre. event_type f \<noteq> Some ''error'')
          \<and> (failure up = Some e' \<or> finalMessage up = Inl e')"
    if h: "failure up = Some e \<or> (finalMessage up = Inl e \<and> message_stop \<in> set (events up))" for e
  proof -
    from h obtain e' where e': "snd ?r = Some e'"
      using relayed_failure [of "finalMessage up" "events up" e]
            relayed_final_raises [of "events up" e "failure up"] by auto
    then have "failure up = Some e' \<or> finalMessage up = Inl e'"
      by (rule relayed_raised)
    moreover have "frames (fst (start up new_controller)) = fst ?r @ [error_event (errorMsg e')]"
      by (simp add: start_relayed e')
    ultimately show ?thesis using relayed_no_error by blast
  qed
  from a b show ?thesis by blast
qed

text \<open>The upstream fails after two fragments: two deltas, one error frame, one close.\<close>

theorem start_closes_once_witness:
  "failure \<lparr>events = [content_block_delta (text_delta ''a''), content_block_delta (text_delta ''b'')],
      failure = Some (Error ''overloaded''), finalMessage = Inr JNull\<rparr>
     = Some (Error ''overloaded'')
   \<and> closes (fst (start
     \<lparr>events = [content_block_delta (text_delta ''a''), content_block_delta (text_delta ''b'')],
      failure = Some (Error ''overloaded''), finalMessage = Inr JNull\<rparr>
     new_controller)) = 1
   \<and> snd (start
     \<lparr>events = [content_block_delta (text_delta ''a''), content_block_delta (text_delta ''b'')],
      failure = Some (Error ''overloaded''), finalMessage = Inr JNull\<rparr>
     new_controller) = None
   \<and> frames (fst (start
     \<lparr>events = [content_block_delta (text_delta ''a''), content_block_delta (text_delta ''b'')],
      failure = Some (Error ''overloaded''), finalMessage = Inr JNull\<rparr>
     new_controller))
       = [delta_event ''a'', delta_event ''b'', error_event ''overloaded'']"
  using start_closes_once [of "\<lparr>events = [content_block_delta (text_delta ''a''), content_block_delta (text_delta ''b'')],
      failure = Some (Error ''overloaded''), finalMessage = Inr JNull\<rparr>"]
  by (simp add: start_relayed)

text \<open>
  Claim C1, as the code has it. When the upstream keeps to its protocol (\<open>protocol_ok\<close>), the
  frames of the response hold exactly one terminal event, \<open>done\<close> or \<open>error\<close>, it is the last
  frame, and only \<open>delta\<close> events precede it.
\<close>

theorem relay_one_terminal:
  assumes "protocol_ok up"
  shows "one_terminal_last (frames (fst (start up new_controller)))"
proof (cases "failure up")
  case None
  with assms have ne: "events up \<noteq> []" and l: "last (events up) = message_stop"
    and p: "message_stop \<notin> set (butlast (events up))"
    by (simp_all add: protocol_ok_def)
  from ne l p obtain pre where ev: "events up = pre @ [message_stop]"
    and pre: "message_stop \<notin> set pre"
    by (metis append_butlast_last_id)
  show ?thesis
    by (cases "finalMessage up")
       (simp_all add: start_relayed ev None relayed_append [OF pre] one_terminal_last_def
          is_terminal_def is_delta_def list_all_iff)
next
  case (Some e)
  with assms have "message_stop \<notin> set (events up)" by (simp add: protocol_ok_def)
  then show ?thesis
    by (simp add: start_relayed Some relayed_no_stop one_terminal_last_def
          is_terminal_def is_delta_def list_all_iff)
qed

theorem relay_one_terminal_witness:
  "protocol_ok
     \<lparr>events = [content_block_delta (text_delta ''a''), message_stop], failure = None,
      finalMessage = Inr JNull\<rparr>
   \<and> one_terminal_last (frames (fst (start
     \<lparr>events = [content_block_delta (text_delta ''a''), message_stop], failure = None,
      finalMessage = Inr JNull\<rparr>
     new_controller)))"
  using relay_one_terminal [of "\<lparr>events = [content_block_delta (text_delta ''a''), message_stop], failure = None,
      finalMessage = Inr JNull\<rparr>"]
  by (simp add: protocol_ok_def)

text \<open>
  Without that proviso the claim fails: an upstream stream that ends after a fragment and
  without a \<open>message_stop\<close> is relayed as one \<open>delta\<close> and no terminal event.
\<close>

theorem relay_one_terminal_counterexample:
  "\<not> one_terminal_last (frames (fst (start
       \<lparr>events = [content_block_delta (text_delta ''a'')], failure = None,
        finalMessage = Inr JNull\<rparr> new_controller)))"
  by (simp add: start_relayed one_terminal_last_def is_terminal_def)

text \<open>
  Claim C2. When the stream of frames ends in a \<open>done\<close> event, the \<open>text\<close> fields of its
  \<open>delta\<close> frames are, one for one and in order, the text fragments the upstream delivered,
  so their concatenation is the whole reply.
\<close>

theorem deltas_reproduce_reply:
  assumes "fs = frames (fst (start up new_controller))"
    and "fs \<noteq> []" and "event_type (last fs) = Some ''done''"
  shows "delta_texts fs = text_fragments (events up)
         \<and> concat (delta_texts fs) = concat (text_fragments (events up))"
proof -
  let ?r = "relayed (finalMessage up) (events up) (failure up)"
  have "snd ?r = None"
  proof (cases "snd ?r")
    case (Some e)
    then have "last fs = error_event (errorMsg e)" using assms(1) by (simp add: start_relayed)
    with assms(3) show ?thesis by simp
  qed simp
  then have "fs = fst ?r" and "delta_texts (fst ?r) = text_fragments (events up)"
    using assms(1) by (simp_all add: start_relayed relayed_None)
  then show ?thesis by simp
qed

theorem deltas_reproduce_reply_witness:
  "frames (fst (start
     \<lparr>events = [content_block_delta (text_delta ''Hel''), content_block_delta (text_delta ''lo''),
                message_stop],
      failure = None, finalMessage = Inr JNull\<rparr>
     new_controller)) \<noteq> []
   \<and> event_type (last (frames (fst (start
     \<lparr>events = [content_block_delta (text_delta ''Hel''), content_block_delta (text_delta ''lo''),
                message_stop],
      failure = None, finalMessage = Inr JNull\<rparr>
     new_controller)))) = Some ''done''
   \<and> delta_texts (frames (fst (start
     \<lparr>events = [content_block_delta (text_delta ''Hel''), content_block_delta (text_delta ''lo''),
                message_stop],
      failure = None, finalMessage = Inr JNull\<rparr>
     new_controller))) = [''Hel'', ''lo'']
   \<and> concat (delta_texts (frames (fst (start
     \<lparr>events = [content_block_delta (text_delta ''Hel''), content_block_delta (text_delta ''lo''),
                message_stop],
      failure = None, finalMessage = Inr JNull\<rparr>
     new_controller)))) = ''Hello''"
  using deltas_reproduce_reply [of "frames (fst (start
     \<lparr>events = [content_block_delta (text_delta ''Hel''), content_block_delta (text_delta ''lo''),
                message_stop],
      failure = None, finalMessage = Inr JNull\<rparr>
     new_controller))" "\<lparr>events = [content_block_delta (text_delta ''Hel''), content_block_delta (text_delta ''lo''),
                message_stop],
      failure = None, finalMessage = Inr JNull\<rparr>"]
  by (simp add: start_relayed)

subsection \<open>Rejected requests and the upstream call\<close>

text \<open>
  Claim C4. A request whose body is not JSON, or whose body the validator rejects, gets
  status 400 and a body \<^verbatim>\<open>{ error: <string> }\<close>, and no upstream call is made.
\<close>

theorem handleChat_rejects:
  assumes "parsed = None \<or> (\<exists>b e. parsed = Some b \<and> validateRequest b = Inl e)"
  shows "status (fst (handleChat api parsed)) = 400
         \<and> (\<exists>msg. body (fst (handleChat api parsed)) = JsonBody (JObj [(''error'', JStr msg)]))
         \<and> snd (handleChat api parsed) = []"
  using assms by (auto simp: handleChat_def)

text \<open>A body that is not JSON, and a body without a model.\<close>

theorem handleChat_rejects_witness:
  "status (fst (handleChat (\<lambda>p. \<lparr>events = [], failure = None, finalMessage = Inr JNull\<rparr>) None)) = 400
   \<and> snd (handleChat (\<lambda>p. \<lparr>events = [], failure = None, finalMessage = Inr JNull\<rparr>) None) = []
   \<and> validateRequest (JObj []) = Inl (''Invalid model. Must be one of: '' @ join '', '' MODELS)
   \<and> status (fst (handleChat (\<lambda>p. \<lparr>events = [], failure = None, finalMessage = Inr JNull\<rparr>) (Some (JObj [])))) = 400
   \<and> snd (handleChat (\<lambda>p. \<lparr>events = [], failure = None, finalMessage = Inr JNull\<rparr>) (Some (JObj []))) = []"
  using handleChat_rejects [of None "(\<lambda>p. \<lparr>events = [], failure = None, finalMessage = Inr JNull\<rparr>)"]
        handleChat_rejects [of "Some (JObj [])" "(\<lambda>p. \<lparr>events = [], failure = None, finalMessage = Inr JNull\<rparr>)"]
  by (simp add: validateRequest_def)

lemma delta_texts_append: "delta_texts (xs @ ys) = delta_texts xs @ delta_texts ys"
  by (simp add: delta_texts_def map_filter_def)

lemma delta_texts_Nil: "delta_texts [] = []"
  by (simp add: delta_texts_def map_filter_def)

lemma delta_texts_Cons:
  "delta_texts (delta_event t # fs) = t # delta_texts fs"
  "delta_texts (done_event u # fs) = delta_texts fs"
  "delta_texts (error_event m # fs) = delta_texts fs"
  by (simp_all add: delta_texts_def map_filter_def is_delta_def delta_event_def done_event_def
        error_event_def event_type_def)

lemma relayed_prefix:
  "\<exists>k. delta_texts (fst (relayed final evs raised)) = take k (text_fragments evs)"
proof (induction final evs raised rule: relayed.induct)
  case (1 final raised)
  then show ?case by (simp add: delta_texts_def map_filter_def)
next
  case (2 final t evs raised)
  then obtain k where "delta_texts (fst (relayed final evs raised)) = take k (text_fragments evs)"
    by blast
  then have "delta_texts (fst (relayed final (content_block_delta (text_delta t) # evs) raised))
      = take (Suc k) (text_fragments (content_block_delta (text_delta t) # evs))"
    by (simp add: delta_texts_Cons)
  then show ?case by blast
next
  case (3 final evs raised)
  show ?case
  proof (cases final)
    case (Inl e)
    then have "delta_texts (fst (relayed final (message_stop # evs) raised))
        = take 0 (text_fragments (message_stop # evs))"
      by (simp add: delta_texts_def map_filter_def)
    then show ?thesis by blast
  next
    case (Inr u)
    with 3 show ?thesis by (simp add: delta_texts_Cons)
  qed
qed simp_all

lemma start_reply_prefix:
  "\<exists>k. delta_texts (frames (fst (start up new_controller)))
        = take k (text_fragments (events up))"
proof -
  obtain k where
    "delta_texts (fst (relayed (finalMessage up) (events up) (failure up)))
       = take k (text_fragments (events up))"
    using relayed_prefix by blast
  then have "delta_texts (frames (fst (start up new_controller)))
        = take k (text_fragments (events up))"
    by (cases "snd (relayed (finalMessage up) (events up) (failure up))")
       (simp_all add: start_relayed delta_texts_append delta_texts_Cons,
        simp_all add: delta_texts_def map_filter_def)
  then show ?thesis by blast
qed

lemma within_max_tokens_take:
  assumes "within_max_tokens tokens p up"
  shows "tokens (concat (take k (text_fragments (events up)))) \<le> max_tokens p"
proof -
  let ?fs = "text_fragments (events up)"
  have "take k ?fs = take (min k (length ?fs)) ?fs"
    by (cases "k \<le> length ?fs") (simp_all add: min_def)
  moreover have "min k (length ?fs) \<in> set [0..<Suc (length ?fs)]" by auto
  ultimately show ?thesis
    using assms unfolding within_max_tokens_def list_all_iff by metis
qed

lemma relay_forwards_reply:
  assumes "validateRequest b = Inr data"
  shows "relayed_reply (fst (handleChat
           (\<lambda>p. \<lparr>events = [content_block_delta (text_delta t), message_stop],
                  failure = None, finalMessage = Inr u\<rparr>) (Some b))) = t"
  using assms
  by (simp add: handleChat_def Let_def relayed_reply_def start_relayed delta_texts_Cons
        delta_texts_Nil)

text \<open>
  Claim C10. A request that passes validation makes one upstream call, and the call has
  \<open>max_tokens\<close> 8192, whatever the request holds. The relay sends on, in their order, only
  fragments that the upstream sent (\<open>start_reply_prefix\<close>). So when the upstream never sends
  more tokens than the \<open>max_tokens\<close> it is called with, the reply to every validated
  request has at most 8192 tokens. (The relay has no limit of its own: it forwards the
  text it is sent, \<open>relay_forwards_reply\<close>.)
\<close>

theorem handleChat_reply_capped:
  assumes "validateRequest b = Inr data"
    and "\<And>p. within_max_tokens tokens p (api p)"
  shows "\<exists>p. snd (handleChat api (Some b)) = [p] \<and> max_tokens p = 8192
             \<and> tokens (relayed_reply (fst (handleChat api (Some b)))) \<le> 8192"
proof -
  define p where
    "p = \<lparr>stream_model = model data, max_tokens = 8192,
          stream_system = systemContent (system data),
          stream_messages = formattedMessages (messages data)\<rparr>"
  have h: "handleChat api (Some b)
      = (\<lparr>status = 200,
          headers = [(''Content-Type'', ''text/event-stream''),
                     (''Cache-Control'', ''no-cache''), (''Connection'', ''keep-alive'')],
          body = EventStream (start (api p) new_controller)\<rparr>, [p])"
    using assms(1) by (simp add: handleChat_def Let_def p_def)
  have m: "max_tokens p = 8192" by (simp add: p_def)
  obtain k where
    "delta_texts (frames (fst (start (api p) new_controller)))
       = take k (text_fragments (events (api p)))"
    using start_reply_prefix by blast
  then have "relayed_reply (fst (handleChat api (Some b)))
      = concat (take k (text_fragments (events (api p))))"
    by (simp add: h relayed_reply_def)
  then have "tokens (relayed_reply (fst (handleChat api (Some b)))) \<le> max_tokens p"
    using within_max_tokens_take [of tokens p "api p" k, OF assms(2)] by simp
  with h m show ?thesis by simp
qed

text \<open>
  An upstream that answers \<open>OK\<close>, cut to the \<open>max_tokens\<close> of the call, with a token for
  each character.
\<close>

theorem handleChat_reply_capped_witness:
  "validateRequest (JObj [(''model'', JStr ''claude-haiku-3-5-20241022''),
         (''messages'', JArr [JObj [(''role'', JStr ''user''), (''content'', JStr ''Test'')]])])
     = Inr \<lparr>model = ''claude-haiku-3-5-20241022'', system = [],
            messages = [\<lparr>role = user, content = ''Test''\<rparr>]\<rparr>
   \<and> (\<forall>p. within_max_tokens length p ((\<lambda>p. \<lparr>events = [content_block_delta (text_delta (take (max_tokens p) ''OK'')), message_stop],
           failure = None, finalMessage = Inr JNull\<rparr>) p))
   \<and> map max_tokens (snd (handleChat (\<lambda>p. \<lparr>events = [content_block_delta (text_delta (take (max_tokens p) ''OK'')), message_stop],
           failure = None, finalMessage = Inr JNull\<rparr>) (Some (JObj [(''model'', JStr ''claude-haiku-3-5-20241022''),
         (''messages'', JArr [JObj [(''role'', JStr ''user''), (''content'', JStr ''Test'')]])])))) = [8192]
   \<and> relayed_reply (fst (handleChat (\<lambda>p. \<lparr>events = [content_block_delta (text_delta (take (max_tokens p) ''OK'')), message_stop],
           failure = None, finalMessage = Inr JNull\<rparr>) (Some (JObj [(''model'', JStr ''claude-haiku-3-5-20241022''),
         (''messages'', JArr [JObj [(''role'', JStr ''user''), (''content'', JStr ''Test'')]])])))) = ''OK''
   \<and> length (relayed_reply (fst (handleChat (\<lambda>p. \<lparr>events = [content_block_delta (text_delta (take (max_tokens p) ''OK'')), message_stop],
           failure = None, finalMessage = Inr JNull\<rparr>) (Some (JObj [(''model'', JStr ''claude-haiku-3-5-20241022''),
         (''messages'', JArr [JObj [(''role'', JStr ''user''), (''content'', JStr ''Test'')]])]))))) \<le> 8192"
proof -
  have v: "validateRequest (JObj [(''model'', JStr ''claude-haiku-3-5-20241022''),
         (''messages'', JArr [JObj [(''role'', JStr ''user''), (''content'', JStr ''Test'')]])])
     = Inr \<lparr>model = ''claude-haiku-3-5-20241022'', system = [],
            messages = [\<lparr>role = user, content = ''Test''\<rparr>]\<rparr>"
    by (simp add: validateRequest_def MODELS_def)
  have w: "within_max_tokens length p ((\<lambda>p. \<lparr>events = [content_block_delta (text_delta (take (max_tokens p) ''OK'')), message_stop],
           failure = None, finalMessage = Inr JNull\<rparr>) p)" for p
    by (simp add: within_max_tokens_def)
  have r: "relayed_reply (fst (handleChat (\<lambda>p. \<lparr>events = [content_block_delta (text_delta (take (max_tokens p) ''OK'')), message_stop],
           failure = None, finalMessage = Inr JNull\<rparr>) (Some (JObj [(''model'', JStr ''claude-haiku-3-5-20241022''),
         (''messages'', JArr [JObj [(''role'', JStr ''user''), (''content'', JStr ''Test'')]])])))) = ''OK''"
    by (simp add: handleChat_def v Let_def relayed_reply_def start_relayed delta_texts_Cons
          delta_texts_Nil)
  from handleChat_reply_capped [of "JObj [(''model'', JStr ''claude-haiku-3-5-20241022''),
         (''messages'', JArr [JObj [(''role'', JStr ''user''), (''content'', JStr ''Test'')]])]" _ length "(\<lambda>p. \<lparr>events = [content_block_delta (text_delta (take (max_tokens p) ''OK'')), message_stop],
           failure = None, finalMessage = Inr JNull\<rparr>)", OF v w] v w r
  show ?thesis by auto
qed

subsection \<open>The request validator\<close>

lemma shape_code: "(falsy (Some v) \<or> \<not> typeof_object (Some v)) = (\<not> is_object_or_array v)"
  by (cases v) simp_all

lemma model_code: "(falsy v \<or> \<not> models_include v) = (\<not> supported_model v)"
  by (cases v rule: models_include.cases) (auto simp: supported_model_def MODELS_def)

lemma validateMessages_first:
  "validateMessages ms =
     (case messages_violations is_object_or_array ms of
        [] \<Rightarrow> Inr (map message_view ms)
      | v # vs \<Rightarrow> Inl (error_text v))"
proof (induction ms)
  case Nil
  then show ?case by simp
next
  case (Cons m ms)
  show ?case
  proof (cases "message_violations is_object_or_array m = []")
    case True
    then have ok: "is_object_or_array m"
        "get_prop m ''role'' = Some (JStr ''user'') \<or> get_prop m ''role'' = Some (JStr ''assistant'')"
        "is_string (get_prop m ''content'')"
      by (auto simp: message_violations_def split: if_splits)
    from ok(3) obtain c where c: "get_prop m ''content'' = Some (JStr c)"
      by (cases "get_prop m ''content''" rule: is_string.cases) auto
    show ?thesis using ok(1,2) True
      by (auto simp add: shape_code c Cons.IH message_view_def split: list.splits)
  next
    case False
    then show ?thesis
      by (cases "get_prop m ''content''" rule: is_string.cases)
         (auto simp add: shape_code message_violations_def)
  qed
qed

lemma object_or_array_no_model:
  "\<not> is_object b \<Longrightarrow> \<not> supported_model (get_prop b ''model'')"
  by (cases b) (simp_all add: supported_model_def)

lemma object_or_array_no_role:
  "\<not> is_object m \<Longrightarrow> message_violations shape m \<noteq> []"
  by (cases m) (simp_all add: message_violations_def)

lemma message_violations_shapes:
  "(message_violations is_object m = []) = (message_violations is_object_or_array m = [])"
  by (cases m) (simp_all add: message_violations_def)

lemma messages_violations_shapes:
  "(messages_violations is_object ms = [])
     = (messages_violations is_object_or_array ms = [])"
  by (induction ms) (simp_all add: message_violations_shapes)

lemma violations_shapes:
  "(violations is_object b = []) = (violations is_object_or_array b = [])"
proof (cases "is_object b")
  case True
  then have "is_object_or_array b" by (cases b) simp_all
  with True show ?thesis
    by (simp add: violations_def messages_violations_shapes split: option.split json.split)
next
  case False
  then show ?thesis using object_or_array_no_model [OF False]
    by (simp add: violations_def)
qed

text \<open>
  Claim C3, as the code has it. The validator gives the normalized request (with \<open>system\<close>
  the empty string when it is absent) exactly when the body is an object, its model is
  supported, its system prompt is absent or a string, its messages are an array and every
  message is an object with a role \<open>user\<close> or \<open>assistant\<close> and a string content; otherwise
  it gives the error of the first violated constraint, in the order body shape, model,
  system type, messages, then message by message shape, role and content. In that order
  the two shape checks let an array pass: an array fails at the next check.
\<close>

theorem validateRequest_first_violation:
  "validateRequest b = first_violation is_object_or_array b
   \<and> ((\<exists>d. validateRequest b = Inr d) = (violations is_object b = []))"
proof -
  have sys: "(get_prop b ''system'' \<noteq> None
              \<and> (case get_prop b ''system'' of Some (JStr s) \<Rightarrow> False | _ \<Rightarrow> True))
             = (\<not> (get_prop b ''system'' = None \<or> is_string (get_prop b ''system'')))"
    by (cases "get_prop b ''system''" rule: is_string.cases) simp_all
  have 1: "validateRequest b = first_violation is_object_or_array b"
    unfolding validateRequest_def first_violation_def violations_def shape_code model_code sys
    by (simp add: validateMessages_first normalized_def split: option.split json.split list.split)
  have "(\<exists>d. first_violation is_object_or_array b = Inr d) = (violations is_object_or_array b = [])"
    by (simp add: first_violation_def split: list.split)
  with 1 show ?thesis by (simp add: violations_shapes)
qed

theorem validateRequest_first_violation_witness:
  "validateRequest (JObj [(''model'', JStr ''claude-haiku-3-5-20241022''),
         (''messages'', JArr [JObj [(''role'', JStr ''user''), (''content'', JStr ''Test'')]])])
     = Inr \<lparr>model = ''claude-haiku-3-5-20241022'', system = [],
            messages = [\<lparr>role = user, content = ''Test''\<rparr>]\<rparr>
   \<and> violations is_object (JObj [(''model'', JStr ''claude-haiku-3-5-20241022''),
         (''messages'', JArr [JObj [(''role'', JStr ''user''), (''content'', JStr ''Test'')]])]) = []
   \<and> validateRequest (JObj [(''model'', JStr ''claude-haiku-3-5-20241022''), (''system'', JNull)])
       = Inl ''System prompt must be a string''"
  using validateRequest_first_violation [of "JObj [(''model'', JStr ''claude-haiku-3-5-20241022''),
         (''messages'', JArr [JObj [(''role'', JStr ''user''), (''content'', JStr ''Test'')]])]"]
        validateRequest_first_violation
          [of "JObj [(''model'', JStr ''claude-haiku-3-5-20241022''), (''system'', JNull)]"]
  by (simp add: first_violation_def violations_def supported_model_def MODELS_def
        message_violations_def normalized_def message_view_def)

text \<open>
  With objects only as the shape, the claim fails: the body \<^verbatim>\<open>[]\<close> violates the body
  shape first, and the validator reports the model.
\<close>

theorem validateRequest_first_violation_counterexample:
  "validateRequest (JArr []) \<noteq> first_violation is_object (JArr [])"
  by (simp add: validateRequest_def first_violation_def violations_def supported_model_def)

section \<open>Properties of the client's stream consumer\<close>

subsection \<open>Lines and reads\<close>

lemma split_not_Nil: "sep \<noteq> [] \<Longrightarrow> split sep s \<noteq> []"
  by (induction sep s rule: split.induct) (auto split: list.splits)

lemma starts_with_char [simp]: "starts_with [c] (x # xs) = (x = c)"
  by (auto simp: starts_with_def)

lemma split_char_simps:
  "split [c] [] = [[]]"
  "split [c] (c # xs) = [] # split [c] xs"
  "x \<noteq> c \<Longrightarrow> split [c] (x # xs) = (x # hd (split [c] xs)) # tl (split [c] xs)"
  using split_not_Nil [of "[c]" xs]
  by (auto split: list.splits)

lemma split_char_none: "c \<notin> set b \<Longrightarrow> split [c] b = [b]"
  by (induction b) (auto simp: split_char_simps simp del: split.simps)

lemma split_char_pieces: "p \<in> set (split [c] s) \<Longrightarrow> c \<notin> set p"
proof (induction s arbitrary: p)
  case Nil
  then show ?case by simp
next
  case (Cons x xs)
  show ?case
  proof (cases "x = c")
    case True
    with Cons show ?thesis by (auto simp: split_char_simps simp del: split.simps)
  next
    case False
    have ne: "split [c] xs \<noteq> []" by (simp add: split_not_Nil)
    from Cons.prems False have "p = x # hd (split [c] xs) \<or> p \<in> set (tl (split [c] xs))"
      by (simp add: split_char_simps del: split.simps)
    then show ?thesis
      using Cons.IH [of "hd (split [c] xs)"] Cons.IH [of p] ne False
      by (auto dest: list.set_sel(2) hd_in_set)
  qed
qed

lemma split_char_append:
  "split [c] (x @ y) =
     butlast (split [c] x) @ (last (split [c] x) @ hd (split [c] y)) # tl (split [c] y)"
proof (induction x)
  case Nil
  then show ?case by (simp add: split_not_Nil)
next
  case (Cons a x)
  have ne: "split [c] x \<noteq> []" by (simp add: split_not_Nil)
  show ?case
  proof (cases "a = c")
    case True
    then show ?thesis using ne by (simp add: split_char_simps Cons.IH del: split.simps)
  next
    case False
    show ?thesis
    proof (cases "butlast (split [c] x)")
      case Nil
      with ne have "split [c] x = [last (split [c] x)]"
        by (metis append_butlast_last_id append_Nil)
      then have "hd (split [c] x) = last (split [c] x)" "tl (split [c] x) = []"
        by (metis list.sel(1), metis list.sel(3))
      with False Nil show ?thesis by (simp add: split_char_simps Cons.IH del: split.simps)
    next
      case (Cons p ps)
      with ne have "split [c] x = p # ps @ [last (split [c] x)]"
        by (metis append_butlast_last_id append_Cons)
      then have "hd (split [c] x) = p" "tl (split [c] x) = ps @ [last (split [c] x)]"
        by (metis list.sel(1), metis list.sel(3))
      with False Cons show ?thesis by (simp add: split_char_simps Cons.IH del: split.simps)
    qed
  qed
qed

lemma split_char_resume:
  "split [c] (x @ y) = butlast (split [c] x) @ split [c] (last (split [c] x) @ y)"
proof -
  have "c \<notin> set (last (split [c] x))"
    by (rule split_char_pieces [where s = x]) (simp add: split_not_Nil)
  then have "split [c] (last (split [c] x)) = [last (split [c] x)]"
    by (rule split_char_none)
  then have "split [c] (last (split [c] x) @ y)
      = (last (split [c] x) @ hd (split [c] y)) # tl (split [c] y)"
    by (simp add: split_char_append [of c "last (split [c] x)" y])
  then show ?thesis by (simp add: split_char_append [of c x y])
qed

lemma process_lines_append:
  "process_lines pf v (xs @ ys) =
     (case process_lines pf v xs of Inl m \<Rightarrow> Inl m | Inr v' \<Rightarrow> process_lines pf v' ys)"
  by (induction xs arbitrary: v) (simp_all split: sum.split)

lemma read_loop_lines:
  "newline \<notin> set buffer \<Longrightarrow>
   read_loop pf read_error v buffer chunks =
     (case process_lines pf v (butlast (split [newline] (buffer @ concat chunks))) of
        Inl m \<Rightarrow> Inl (Error m)
      | Inr v' \<Rightarrow>
          (case read_error of
             None \<Rightarrow> Inr (v', last (split [newline] (buffer @ concat chunks)))
           | Some e \<Rightarrow> Inl e))"
proof (induction chunks arbitrary: v buffer)
  case Nil
  then show ?case by (simp add: split_char_none del: split.simps split: option.split)
next
  case (Cons chunk chunks)
  let ?b = "last (split [newline] (buffer @ chunk))"
  have nb: "newline \<notin> set ?b"
    by (rule split_char_pieces [where s = "buffer @ chunk"]) (simp add: split_not_Nil)
  have ne: "split [newline] (?b @ concat chunks) \<noteq> []" by (simp add: split_not_Nil)
  have "split [newline] (buffer @ concat (chunk # chunks))
      = butlast (split [newline] (buffer @ chunk)) @ split [newline] (?b @ concat chunks)"
    using split_char_resume [of newline "buffer @ chunk" "concat chunks"] by simp
  then have *: "butlast (split [newline] (buffer @ concat (chunk # chunks)))
      = butlast (split [newline] (buffer @ chunk)) @ butlast (split [newline] (?b @ concat chunks))"
    and **: "last (split [newline] (buffer @ concat (chunk # chunks)))
      = last (split [newline] (?b @ concat chunks))"
    using ne by (simp_all add: butlast_append)
  show ?case
    unfolding * ** process_lines_append
    by (simp add: Let_def Cons.IH [OF nb] split: sum.split)
qed

lemma split_frames_join:
  "split_frame_1 @ split_frame_2 = ''data: '' @ delta_payload ''hello'' @ [newline, newline]"
  by (simp add: split_frame_1_def split_frame_2_def delta_payload_def quoted_def)

lemma newline_delta_payload: "newline \<notin> set t \<Longrightarrow> newline \<notin> set (''data: '' @ delta_payload t)"
  by (simp add: delta_payload_def quoted_def)

lemma newline_error_payload: "newline \<notin> set t \<Longrightarrow> newline \<notin> set (''data: '' @ error_payload t)"
  by (simp add: error_payload_def quoted_def)

lemma split_two_newlines:
  "newline \<notin> set l \<Longrightarrow> split [newline] (l @ [newline, newline]) = [l, [], []]"
  using split_char_append [of newline l "[newline, newline]"]
  by (simp add: split_char_none split_char_simps del: split.simps)

lemma starts_with_simps [simp]:
  "starts_with [] s = True"
  "starts_with (x # p) [] = False"
  "starts_with (x # p) (y # s) = (x = y \<and> starts_with p s)"
  by (auto simp: starts_with_def)

lemma handle_line_empty [simp]: "handle_line pf v [] = Inr v"
  by (simp add: handle_line_def starts_with_def)

lemma delta_event_type [simp]:
  "get_prop (delta_event t) ''type'' = Some (JStr ''delta'')"
  "get_prop (delta_event t) ''text'' = Some (JStr t)"
  "get_prop (error_event m) ''type'' = Some (JStr ''error'')"
  "get_prop (error_event m) ''error'' = Some (JStr m)"
  by (simp_all add: delta_event_def error_event_def)

lemma handle_line_delta:
  "parse pf p = Inr (delta_event t) \<Longrightarrow>
   handle_line pf v (''data: '' @ p)
     = Inr \<lparr>fullContent = fullContent v @ t, innerHTML = formatContent (fullContent v @ t)\<rparr>"
  by (simp add: handle_line_def dispatch_def delta_event_def)

lemma handle_line_error:
  "parse pf p = Inr (error_event m) \<Longrightarrow>
   handle_line pf v (''data: '' @ p)
     = (if m \<noteq> [] \<and> \<not> str_includes ''JSON'' m then Inl m else Inr v)"
  by (simp add: handle_line_def dispatch_def error_event_def)

text \<open>
  Claim C6. Whatever the reads are, the read loop hands to the line handler exactly the
  complete lines of the text received so far, that is all pieces of the whole text between
  line feeds but the last, in order and each once, and keeps the last piece, which holds
  no line feed, in the buffer. In particular, after the first read of the frame cut in two
  nothing has been parsed and the fragment is the buffer; after the second read the one
  \<open>delta\<close> event with the text \<open>hello\<close> has been applied and the buffer is empty.
  (What the buffer holds when the body has ended is read by \<open>flush_buffer\<close>, after the
  loop.)
\<close>

theorem read_loop_complete_lines:
  "read_loop pf None v [] chunks =
     (case process_lines pf v (butlast (split [newline] (concat chunks))) of
        Inl m \<Rightarrow> Inl (Error m)
      | Inr v' \<Rightarrow> Inr (v', last (split [newline] (concat chunks))))
   \<and> newline \<notin> set (last (split [newline] (concat chunks)))
   \<and> read_loop pf None v [] [split_frame_1] = Inr (v, split_frame_1)
   \<and> (parse pf (delta_payload ''hello'') = Inr (delta_event ''hello'') \<longrightarrow>
        read_loop pf None v [] [split_frame_1, split_frame_2]
          = Inr (\<lparr>fullContent = fullContent v @ ''hello'',
                  innerHTML = formatContent (fullContent v @ ''hello'')\<rparr>, []))"
proof -
  have 1: "read_loop pf None v [] chunks =
     (case process_lines pf v (butlast (split [newline] (concat chunks))) of
        Inl m \<Rightarrow> Inl (Error m)
      | Inr v' \<Rightarrow> Inr (v', last (split [newline] (concat chunks))))" for chunks
    by (simp add: read_loop_lines split: sum.split)
  have 2: "newline \<notin> set (last (split [newline] (concat chunks)))"
    by (rule split_char_pieces [where s = "concat chunks"]) (simp add: split_not_Nil)
  have n1: "newline \<notin> set split_frame_1"
    by (simp add: split_frame_1_def quoted_def)
  have 3: "read_loop pf None v [] [split_frame_1] = Inr (v, split_frame_1)"
    by (simp add: split_char_none [OF n1] del: split.simps)
  have n: "newline \<notin> set (''data: '' @ delta_payload ''hello'')"
    by (rule newline_delta_payload) simp
  have 4: "read_loop pf None v [] [split_frame_1, split_frame_2]
          = Inr (\<lparr>fullContent = fullContent v @ ''hello'',
                  innerHTML = formatContent (fullContent v @ ''hello'')\<rparr>, [])"
    if "parse pf (delta_payload ''hello'') = Inr (delta_event ''hello'')"
  proof -
    define line where "line = ''data: '' @ delta_payload ''hello''"
    have "concat [split_frame_1, split_frame_2] = line @ [newline, newline]"
      using split_frames_join by (simp add: line_def)
    then have sp: "split [newline] (concat [split_frame_1, split_frame_2]) = [line, [], []]"
      using split_two_newlines [OF n] by (simp only: line_def)
    have hl: "handle_line pf v line
        = Inr \<lparr>fullContent = fullContent v @ ''hello'',
               innerHTML = formatContent (fullContent v @ ''hello'')\<rparr>"
      unfolding line_def using that by (rule handle_line_delta)
    show ?thesis
      unfolding 1 sp by (simp add: hl)
  qed
  from 1 2 3 4 show ?thesis by blast
qed

lemma formatContent_hello: "formatContent ''hello'' = ''<p>hello</p>''"
  by code_simp

text \<open>The frame cut in two, on the platform of the examples.\<close>

theorem read_loop_complete_lines_witness:
  "parse example_platform (delta_payload ''hello'') = Inr (delta_event ''hello'')
   \<and> split_frame_1 @ split_frame_2 = ''data: '' @ delta_payload ''hello'' @ [newline, newline]
   \<and> read_loop example_platform None \<lparr>fullContent = [], innerHTML = []\<rparr> []
        [split_frame_1, split_frame_2]
       = Inr (\<lparr>fullContent = ''hello'', innerHTML = ''<p>hello</p>''\<rparr>, [])"
proof -
  have p: "parse example_platform (delta_payload ''hello'') = Inr (delta_event ''hello'')"
    by (simp add: example_platform_def table_platform_def)
  show ?thesis
    using read_loop_complete_lines
            [of example_platform "\<lparr>fullContent = [], innerHTML = []\<rparr>" "[]"] p
    by (simp add: split_frames_join formatContent_hello del: read_loop.simps)
qed

subsection \<open>Error events\<close>

lemma malformed_json_skipped:
  assumes "parse pf p = Inl m" and "m = [] \<or> str_includes ''JSON'' m"
  shows "handle_line pf v (''data: '' @ p) = Inr v"
  using assms by (auto simp: handle_line_def dispatch_def)

lemma error_event_propagates:
  assumes "parse pf p = Inr (error_event m)" and "m \<noteq> []" and "\<not> str_includes ''JSON'' m"
  shows "process_lines pf v ((''data: '' @ p) # lines) = Inl m"
  using assms by (simp add: handle_line_error del: append.simps)

text \<open>
  Claim C8, where the code departs from it. The error thrown for an \<open>error\<close> event is
  told from a parse error by its message alone. When the message of the event is empty or
  holds the text \<open>JSON\<close>, the \<^verbatim>\<open>catch\<close> swallows the error: the line is skipped and the
  loop goes on with the next line. (A line that is not JSON is skipped when the message
  of its parse error holds \<open>JSON\<close>, as the messages of the browsers do:
  \<open>malformed_json_skipped\<close>. An error event with any other message propagates:
  \<open>error_event_propagates\<close>.)
\<close>

theorem error_event_swallowed:
  assumes "parse pf p = Inr (error_event m)" and "m = [] \<or> str_includes ''JSON'' m"
  shows "handle_line pf v (''data: '' @ p) = Inr v
         \<and> process_lines pf v ((''data: '' @ p) # lines) = process_lines pf v lines"
  using assms by (auto simp add: handle_line_error simp del: append.simps)

lemma includes_JSON: "str_includes ''JSON'' ''Unexpected end of JSON input''"
  by simp

theorem error_event_swallowed_witness:
  "parse example_platform (error_payload ''Unexpected end of JSON input'')
     = Inr (error_event ''Unexpected end of JSON input'')
   \<and> str_includes ''JSON'' ''Unexpected end of JSON input''
   \<and> process_lines example_platform \<lparr>fullContent = ''Hi'', innerHTML = ''<p>Hi</p>''\<rparr>
        [''data: '' @ error_payload ''Unexpected end of JSON input'', []]
       = Inr \<lparr>fullContent = ''Hi'', innerHTML = ''<p>Hi</p>''\<rparr>"
proof -
  have p: "parse example_platform (error_payload ''Unexpected end of JSON input'')
     = Inr (error_event ''Unexpected end of JSON input'')"
    by (simp add: example_platform_def table_platform_def delta_payload_def error_payload_def
          quoted_def)
  show ?thesis
    using error_event_swallowed [OF p, of "\<lparr>fullContent = ''Hi'', innerHTML = ''<p>Hi</p>''\<rparr>" "[[]]"] p
    by (simp del: append.simps)
qed

lemma streamResponse_failure:
  assumes "read_loop pf read_error \<lparr>fullContent = [], innerHTML = formatContent []\<rparr> [] chunks = Inl e"
  shows "streamResponse pf (Body chunks read_error) st
           = st\<lparr>isStreaming := False,
                assistantHTML := formatContent (''Error: '' @ errorMsg e),
                loading := False\<rparr>"
  using assms by (simp add: streamResponse_def)

lemma streamResponse_success:
  assumes "read_loop pf read_error \<lparr>fullContent = [], innerHTML = formatContent []\<rparr> [] chunks
             = Inr (v, buffer)"
  shows "streamResponse pf (Body chunks read_error) st
           = st\<lparr>state_messages := state_messages st
                   @ [\<lparr>role = assistant, content = fullContent (flush_buffer pf v buffer)\<rparr>],
                isStreaming := False,
                assistantHTML := innerHTML (flush_buffer pf v buffer),
                loading := False\<rparr>"
  using assms by (simp add: streamResponse_def)

lemma streamResponse_error_event:
  assumes "parse pf p1 = Inr (delta_event t)" and "parse pf p2 = Inr (error_event m)"
    and "newline \<notin> set p1" and "newline \<notin> set p2"
  shows "streamResponse pf
           (Body [''data: '' @ p1 @ [newline, newline], ''data: '' @ p2 @ [newline, newline]] None) st
         = (if m \<noteq> [] \<and> \<not> str_includes ''JSON'' m
            then st\<lparr>isStreaming := False,
                    assistantHTML := formatContent (''Error: '' @ m),
                    loading := False\<rparr>
            else st\<lparr>state_messages := state_messages st @ [\<lparr>role = assistant, content = t\<rparr>],
                    isStreaming := False,
                    assistantHTML := formatContent t,
                    loading := False\<rparr>)"
proof -
  define l1 where "l1 = ''data: '' @ p1"
  define l2 where "l2 = ''data: '' @ p2"
  let ?v0 = "\<lparr>fullContent = [], innerHTML = formatContent []\<rparr>"
  let ?v1 = "\<lparr>fullContent = t, innerHTML = formatContent t\<rparr>"
  have n: "newline \<notin> set l1" "newline \<notin> set l2"
    using assms(3,4) by (simp_all add: l1_def l2_def)
  have s1: "split [newline] (l1 @ [newline, newline]) = [l1, [], []]"
    and s2: "split [newline] (l2 @ [newline, newline]) = [l2, [], []]"
    by (rule split_two_newlines [OF n(1)], rule split_two_newlines [OF n(2)])
  have h1: "handle_line pf ?v0 l1 = Inr ?v1"
    unfolding l1_def using handle_line_delta [OF assms(1), of ?v0] by simp
  have h2: "handle_line pf ?v1 l2 = (if m \<noteq> [] \<and> \<not> str_includes ''JSON'' m then Inl m else Inr ?v1)"
    unfolding l2_def using assms(2) by (rule handle_line_error)
  have rl: "read_loop pf None ?v0 [] [l1 @ [newline, newline], l2 @ [newline, newline]]
      = (if m \<noteq> [] \<and> \<not> str_includes ''JSON'' m then Inl (Error m) else Inr (?v1, []))"
    by (simp add: s1 s2 h1 h2 Let_def del: split.simps)
  have "streamResponse pf (Body [l1 @ [newline, newline], l2 @ [newline, newline]] None) st
     = (if m \<noteq> [] \<and> \<not> str_includes ''JSON'' m
            then st\<lparr>isStreaming := False,
                    assistantHTML := formatContent (''Error: '' @ m),
                    loading := False\<rparr>
            else st\<lparr>state_messages := state_messages st @ [\<lparr>role = assistant, content = t\<rparr>],
                    isStreaming := False,
                    assistantHTML := formatContent t,
                    loading := False\<rparr>)"
    unfolding streamResponse_def
    by (simp add: rl flush_buffer_def del: read_loop.simps append.simps)
  then show ?thesis by (simp add: l1_def l2_def)
qed

lemma formatContent_Hi: "formatContent ''Hi'' = ''<p>Hi</p>''"
  by code_simp

text \<open>
  Claim C7, where the code departs from it. The relay reports an upstream failure whose
  message holds the text \<open>JSON\<close> after one fragment. The client swallows the error
  event: the page keeps the partial text and the transcript gets an assistant entry for
  the turn. (For a message that is not empty and does not hold \<open>JSON\<close>, the page shows
  the message after \<^verbatim>\<open>Error: \<close> and the transcript gets no entry, and on success
  the assembled text is appended: \<open>streamResponse_error_event\<close>,
  \<open>streamResponse_success\<close>.)
\<close>

theorem streamResponse_error_swallowed:
  "streamResponse example_platform
     (Body [''data: '' @ delta_payload ''Hi'' @ [newline, newline],
            ''data: '' @ error_payload ''Unexpected end of JSON input'' @ [newline, newline]]
        None) st
   = st\<lparr>state_messages := state_messages st @ [\<lparr>role = assistant, content = ''Hi''\<rparr>],
        isStreaming := False, assistantHTML := ''<p>Hi</p>'', loading := False\<rparr>"
proof -
  have p1: "parse example_platform (delta_payload ''Hi'') = Inr (delta_event ''Hi'')"
    and p2: "parse example_platform (error_payload ''Unexpected end of JSON input'')
     = Inr (error_event ''Unexpected end of JSON input'')"
    by (simp_all add: example_platform_def table_platform_def delta_payload_def
          error_payload_def quoted_def)
  have n: "newline \<notin> set (delta_payload ''Hi'')"
    "newline \<notin> set (error_payload ''Unexpected end of JSON input'')"
    by (simp_all add: delta_payload_def error_payload_def quoted_def)
  show ?thesis
    unfolding streamResponse_error_event [OF p1 p2 n]
    by (simp add: formatContent_Hi)
qed

section \<open>Properties of the rendering\<close>

lemma strip_markup_tokens: "list_all (\<lambda>t. strip_markup (t @ s) = Some s) markup"
  by (simp add: markup_def strip_markup_def)

lemma strip_markup_token: "t \<in> set markup \<Longrightarrow> strip_markup (t @ s) = Some s"
  using strip_markup_tokens [of s] by (simp only: list_all_iff)

lemma tokens_special:
  "list_all (\<lambda>t. t \<noteq> [] \<and> hd t \<in> {CHR ''<'', CHR ''>'', CHR ''&''}) markup"
  by (simp add: markup_def)

lemma token_special:
  assumes "t \<in> set markup"
  shows "\<exists>c cs. t = c # cs \<and> c \<in> {CHR ''<'', CHR ''>'', CHR ''&''}"
proof -
  from assms tokens_special have "t \<noteq> [] \<and> hd t \<in> {CHR ''<'', CHR ''>'', CHR ''&''}"
    unfolding list_all_iff by blast
  then show ?thesis by (cases t) simp_all
qed

lemma escaped_imp_escaped_html: "escaped s \<Longrightarrow> escaped_html s"
proof (induction rule: escaped.induct)
  case empty
  then show ?case by simp
next
  case (plain c s)
  then show ?case by simp
next
  case (token t s)
  from token_special [OF token.hyps(1)] obtain c cs where t: "t = c # cs"
    and c: "c \<in> {CHR ''<'', CHR ''>'', CHR ''&''}" by blast
  have "strip_markup ((c # cs) @ s) = Some s"
    using strip_markup_token [OF token.hyps(1)] by (simp add: t)
  with c token.IH show ?case by (simp add: t)
qed


lemma escaped_append: "escaped a \<Longrightarrow> escaped b \<Longrightarrow> escaped (a @ b)"
proof (induction rule: escaped.induct)
  case empty
  then show ?case by simp
next
  case (plain c s)
  then show ?case by (simp add: escaped.plain)
next
  case (token t s)
  then show ?case using escaped.token [of t "s @ b"] by simp
qed

lemma tokens_no_separator:
  "list_all (\<lambda>t. backtick \<notin> set t \<and> newline \<notin> set t) markup"
  by (simp add: markup_def)

lemma token_no_separator:
  "t \<in> set markup \<Longrightarrow> c = backtick \<or> c = newline \<Longrightarrow> c \<notin> set t"
  using tokens_no_separator unfolding list_all_iff by blast

lemma escaped_split:
  assumes "escaped s" and "s = a @ c # b" and "c = backtick \<or> c = newline"
  shows "escaped a \<and> escaped b"
  using assms
proof (induction arbitrary: a rule: escaped.induct)
  case empty
  then show ?case by simp
next
  case (plain x s)
  show ?case
  proof (cases a)
    case Nil
    with plain.prems plain.hyps show ?thesis by (simp add: escaped.empty)
  next
    case (Cons y ys)
    with plain.prems have "s = ys @ c # b" and "y = x" by simp_all
    with plain.IH [of ys] plain.prems(2) plain.hyps(1) Cons show ?thesis
      by (simp add: escaped.plain)
  qed
next
  case (token t s)
  from token.prems(1) obtain u where
    "(t = a @ u \<and> u @ s = c # b) \<or> (t @ u = a \<and> s = u @ c # b)"
    by (auto simp: append_eq_append_conv2)
  then show ?case
  proof
    assume h: "t = a @ u \<and> u @ s = c # b"
    show ?thesis
    proof (cases u)
      case Nil
      with h have "s = [] @ c # b" and "a = t" by simp_all
      with token.IH [of "[]"] token.prems(2) token.hyps(1) show ?thesis
        using escaped.token [of t "[]"] by (simp add: escaped.empty)
    next
      case (Cons x xs)
      with h have "c \<in> set t" by simp
      with token_no_separator [OF token.hyps(1) token.prems(2)] show ?thesis by simp
    qed
  next
    assume h: "t @ u = a \<and> s = u @ c # b"
    with token.IH [of u] token.prems(2) have "escaped u" "escaped b" by simp_all
    with h token.hyps(1) show ?thesis using escaped.token [of t u] by simp
  qed
qed

lemma escaped_tail:
  "escaped (c # b) \<Longrightarrow> c = backtick \<or> c = newline \<Longrightarrow> escaped b"
  using escaped_split [of "c # b" "[]" c b] by simp

lemma escaped_dropWhile_word: "escaped s \<Longrightarrow> escaped (dropWhile word_char s)"
proof (induction rule: escaped.induct)
  case empty
  then show ?case by (simp add: escaped.empty)
next
  case (plain c s)
  then show ?case by (simp add: escaped.plain)
next
  case (token t s)
  from token_special [OF token.hyps(1)] obtain c cs where t: "t = c # cs"
    and c: "c \<in> {CHR ''<'', CHR ''>'', CHR ''&''}" by blast
  from c have "\<not> word_char c" by (auto simp: word_char_def)
  then have "dropWhile word_char (t @ s) = t @ s" by (simp add: t)
  then show ?case using escaped.token [OF token.hyps(1,2)] by simp
qed

lemma escaped_escapeHtml: "escaped (escapeHtml raw)"
proof (induction raw)
  case Nil
  then show ?case by (simp add: escapeHtml_def escaped.empty)
next
  case (Cons c cs)
  then have IH: "escaped (escapeHtml cs)" .
  have tk: "''&amp;'' \<in> set markup" "''&lt;'' \<in> set markup" "''&gt;'' \<in> set markup"
    "''&nbsp;'' \<in> set markup"
    by (simp_all add: markup_def)
  have e: "escapeHtml (c # cs) = escape_char c @ escapeHtml cs"
    by (simp add: escapeHtml_def)
  consider "c = CHR ''&''" | "c = CHR ''<''" | "c = CHR ''>''" | "c = CHR 0xA0"
    | "c \<notin> {CHR ''&'', CHR ''<'', CHR ''>'', CHR 0xA0}" by blast
  then show ?case
  proof cases
    case 1
    then show ?thesis unfolding e using escaped.token [OF tk(1) IH] by simp
  next
    case 2
    then show ?thesis unfolding e using escaped.token [OF tk(2) IH] by simp
  next
    case 3
    then show ?thesis unfolding e using escaped.token [OF tk(3) IH] by simp
  next
    case 4
    then show ?thesis unfolding e using escaped.token [OF tk(4) IH] by simp
  next
    case 5
    then show ?thesis unfolding e using escaped.plain [of c, OF _ IH] by simp
  qed
qed

lemma index_of_Some:
  "index_of p s = Some k \<Longrightarrow> s = take k s @ p @ drop (k + length p) s"
proof (induction s arbitrary: k)
  case Nil
  then show ?case by (simp split: if_splits)
next
  case (Cons c cs)
  show ?case
  proof (cases "starts_with p (c # cs)")
    case True
    with Cons.prems have "k = 0" by simp
    moreover from True have "take (length p) (c # cs) = p" by (simp only: starts_with_def)
    then have "c # cs = p @ drop (length p) (c # cs)"
      by (metis append_take_drop_id)
    ultimately show ?thesis by simp
  next
    case False
    with Cons.prems obtain k' where k: "k = Suc k'" and i: "index_of p cs = Some k'"
      by auto
    from Cons.IH [OF i] show ?thesis by (simp add: k)
  qed
qed

lemma fence_match_escaped:
  assumes "fence_match s = Some (code, r)" and "escaped s"
  shows "escaped code \<and> escaped r"
proof -
  define after_lang where "after_lang = dropWhile word_char (drop 3 s)"
  define rest where
    "rest = (case after_lang of [] \<Rightarrow> [] | c # cs \<Rightarrow> if c = newline then cs else c # cs)"
  from assms(1) have sw: "starts_with fence s"
    by (simp add: fence_match_def split: if_splits)
  then have "take (length fence) s = fence" by (simp only: starts_with_def)
  moreover have "length fence = 3" by (simp add: fence_def)
  ultimately have "s = fence @ drop 3 s" by (metis append_take_drop_id)
  then have s: "s = backtick # backtick # backtick # drop 3 s"
    by (simp only: fence_def append.simps)
  have "escaped (drop 3 s)"
    using assms(2) escaped_tail [of backtick "backtick # backtick # drop 3 s"]
      escaped_tail [of backtick "backtick # drop 3 s"] escaped_tail [of backtick "drop 3 s"]
    by (subst (asm) s) simp
  then have al: "escaped after_lang"
    unfolding after_lang_def by (rule escaped_dropWhile_word)
  have er: "escaped rest"
  proof (cases after_lang)
    case Nil
    then show ?thesis by (simp add: rest_def escaped.empty)
  next
    case (Cons c cs)
    with al escaped_tail [of c cs] show ?thesis by (auto simp: rest_def)
  qed
  from assms(1) sw obtain k where k: "index_of fence rest = Some k"
    and c: "code = take k rest" and r: "r = drop (k + 3) rest"
    by (auto simp: fence_match_def Let_def after_lang_def rest_def split: option.splits)
  have lf: "length fence = 3" by (simp add: fence_def)
  from index_of_Some [OF k] have "rest = code @ fence @ r"
    by (simp only: c r lf)
  then have "rest = code @ backtick # (backtick # backtick # r)"
    by (simp only: fence_def append.simps)
  with er have "escaped code \<and> escaped (backtick # backtick # r)"
    using escaped_split [of rest code backtick "backtick # backtick # r"] by simp
  then show ?thesis
    using escaped_tail [of backtick "backtick # r"] escaped_tail [of backtick r] by simp
qed

lemma tick_match_escaped:
  assumes "tick_match s = Some (code, r)" and "escaped s"
  shows "escaped code \<and> escaped r"
proof -
  let ?P = "\<lambda>x. x \<noteq> backtick"
  from assms(1) obtain cs where s: "s = backtick # cs"
    and c: "code = takeWhile ?P cs" and r: "r = tl (dropWhile ?P cs)"
    and ne: "dropWhile ?P cs \<noteq> []"
    by (auto simp: tick_match_def split: list.splits if_splits)
  from ne have "hd (dropWhile ?P cs) = backtick"
    using hd_dropWhile [of ?P cs] by simp
  with ne have "dropWhile ?P cs = backtick # r"
    by (cases "dropWhile ?P cs") (simp_all add: r)
  then have cs: "cs = code @ backtick # r"
    using takeWhile_dropWhile_id [of ?P cs] by (simp add: c)
  from assms(2) have "escaped cs" using escaped_tail [of backtick cs] by (simp add: s)
  then show ?thesis using escaped_split [of cs code backtick r] cs by simp
qed

lemma escaped_tags:
  "escaped ''<pre><code>''" "escaped ''</code></pre>''" "escaped ''<code>''"
  "escaped ''</code>''" "escaped ''<p>''" "escaped ''</p>''"
proof -
  have m: "''<pre>'' \<in> set markup" "''</pre>'' \<in> set markup" "''<code>'' \<in> set markup"
    "''</code>'' \<in> set markup" "''<p>'' \<in> set markup" "''</p>'' \<in> set markup"
    by (simp_all add: markup_def)
  show c: "escaped ''<code>''" using escaped.token [OF m(3) escaped.empty] by simp
  show "escaped ''</code>''" using escaped.token [OF m(4) escaped.empty] by simp
  show "escaped ''<p>''" using escaped.token [OF m(5) escaped.empty] by simp
  show "escaped ''</p>''" using escaped.token [OF m(6) escaped.empty] by simp
  show "escaped ''<pre><code>''" using escaped.token [OF m(1) c] by simp
  have "escaped ''</pre>''" using escaped.token [OF m(2) escaped.empty] by simp
  then show "escaped ''</code></pre>''" using escaped.token [OF m(4)] by simp
qed

lemma code_blocks_escaped_pre:
  "backtick \<notin> set pre \<Longrightarrow> escaped (pre @ s) \<Longrightarrow> escaped (pre @ code_blocks s)"
proof (induction "length s" arbitrary: s pre rule: less_induct)
  case less
  show ?case
  proof (cases s)
    case Nil
    with less.prems show ?thesis by simp
  next
    case (Cons c cs)
    show ?thesis
    proof (cases "fence_match (c # cs)")
      case None
      then have cb: "code_blocks s = c # code_blocks cs" by (simp add: Cons)
      show ?thesis
      proof (cases "c = backtick")
        case True
        from less.prems(2) have "escaped pre \<and> escaped cs"
          using escaped_split [of "pre @ c # cs" pre c cs] True by (simp add: Cons)
        moreover from this have "escaped ([] @ code_blocks cs)"
          using less.hyps [of cs "[]"] by (simp add: Cons)
        ultimately have "escaped pre" "escaped (c # code_blocks cs)"
          using True by (simp_all add: escaped.plain)
        then show ?thesis unfolding cb by (rule escaped_append)
      next
        case False
        have "escaped ((pre @ [c]) @ code_blocks cs)"
          using less.hyps [of cs "pre @ [c]"] False less.prems by (simp add: Cons)
        then show ?thesis unfolding cb by simp
      qed
    next
      case (Some m)
      obtain code r where m: "m = (code, r)" by (cases m)
      with Some have fm: "fence_match (c # cs) = Some (code, r)" by simp
      then have cb: "code_blocks s = ''<pre><code>'' @ code @ ''</code></pre>'' @ code_blocks r"
        by (simp add: Cons)
      from fm have "starts_with fence (c # cs)" by (simp add: fence_match_def split: if_splits)
      then have c: "c = backtick" by (simp add: fence_def)
      from less.prems(2) have ep: "escaped pre" and "escaped cs"
        using escaped_split [of "pre @ c # cs" pre c cs] c by (simp_all add: Cons)
      then have "escaped (c # cs)" using c by (simp add: escaped.plain)
      with fm have ec: "escaped code" and er: "escaped r"
        using fence_match_escaped by blast+
      have "length r < length s" using fence_match_shorter [OF fm] by (simp add: Cons)
      with er have "escaped (code_blocks r)" using less.hyps [of r "[]"] by simp
      then show ?thesis
        unfolding cb by (intro escaped_append ep ec escaped_tags)
    qed
  qed
qed

lemma inline_code_escaped_pre:
  "backtick \<notin> set pre \<Longrightarrow> escaped (pre @ s) \<Longrightarrow> escaped (pre @ inline_code s)"
proof (induction "length s" arbitrary: s pre rule: less_induct)
  case less
  show ?case
  proof (cases s)
    case Nil
    with less.prems show ?thesis by simp
  next
    case (Cons c cs)
    show ?thesis
    proof (cases "tick_match (c # cs)")
      case None
      then have cb: "inline_code s = c # inline_code cs" by (simp add: Cons)
      show ?thesis
      proof (cases "c = backtick")
        case True
        from less.prems(2) have "escaped pre \<and> escaped cs"
          using escaped_split [of "pre @ c # cs" pre c cs] True by (simp add: Cons)
        moreover from this have "escaped ([] @ inline_code cs)"
          using less.hyps [of cs "[]"] by (simp add: Cons)
        ultimately have "escaped pre" "escaped (c # inline_code cs)"
          using True by (simp_all add: escaped.plain)
        then show ?thesis unfolding cb by (rule escaped_append)
      next
        case False
        have "escaped ((pre @ [c]) @ inline_code cs)"
          using less.hyps [of cs "pre @ [c]"] False less.prems by (simp add: Cons)
        then show ?thesis unfolding cb by simp
      qed
    next
      case (Some m)
      obtain code r where m: "m = (code, r)" by (cases m)
      with Some have tm: "tick_match (c # cs) = Some (code, r)" by simp
      then have cb: "inline_code s = ''<code>'' @ code @ ''</code>'' @ inline_code r"
        by (simp add: Cons)
      from tm have c: "c = backtick" by (simp add: tick_match_def split: if_splits)
      from less.prems(2) have ep: "escaped pre" and "escaped cs"
        using escaped_split [of "pre @ c # cs" pre c cs] c by (simp_all add: Cons)
      then have "escaped (c # cs)" using c by (simp add: escaped.plain)
      with tm have ec: "escaped code" and er: "escaped r"
        using tick_match_escaped by blast+
      have "length r < length s" using tick_match_shorter [OF tm] by (simp add: Cons)
      with er have "escaped (inline_code r)" using less.hyps [of r "[]"] by simp
      then show ?thesis
        unfolding cb by (intro escaped_append ep ec escaped_tags)
    qed
  qed
qed

lemma join_Cons: "xs \<noteq> [] \<Longrightarrow> join sep (x # xs) = x @ sep @ join sep xs"
  by (cases xs) simp_all

lemma join_split: "sep \<noteq> [] \<Longrightarrow> join sep (split sep s) = s"
proof (induction sep s rule: split.induct)
  case (1 sep)
  then show ?case by simp
next
  case (2 sep c cs)
  show ?case
  proof (cases "starts_with sep (c # cs)")
    case True
    then have "take (length sep) (c # cs) = sep" by (simp only: starts_with_def)
    then have "sep @ drop (length sep) (c # cs) = c # cs" by (metis append_take_drop_id)
    with True "2" show ?thesis by (simp add: join_Cons split_not_Nil)
  next
    case False
    from "2" have ne: "split sep cs \<noteq> []" by (simp add: split_not_Nil)
    then obtain p ps where sp: "split sep cs = p # ps" by (cases "split sep cs") auto
    with False "2" have "join sep (p # ps) = cs" by simp
    then have "join sep ((c # p) # ps) = c # cs" by (cases ps) auto
    with False "2" sp show ?thesis by simp
  qed
qed

lemma escaped_join_pieces:
  "escaped (join [newline, newline] ps) \<Longrightarrow> p \<in> set ps \<Longrightarrow> escaped p"
proof (induction "[newline, newline]" ps rule: join.induct)
  case 1
  then show ?case by simp
next
  case (2 x)
  then show ?case by simp
next
  case (3 x y ys)
  from "3.prems"(1) have "escaped (x @ newline # (newline # join [newline, newline] (y # ys)))"
    by simp
  then have "escaped x" and "escaped (newline # join [newline, newline] (y # ys))"
    using escaped_split [of _ x newline "newline # join [newline, newline] (y # ys)"]
    by simp_all
  then have "escaped x" and "escaped (join [newline, newline] (y # ys))"
    using escaped_tail [of newline "join [newline, newline] (y # ys)"] by simp_all
  with "3" show ?case by auto
qed

lemma paragraphs_escaped:
  assumes "escaped s"
  shows "escaped (paragraphs s)"
proof -
  let ?wrap = "\<lambda>p. if trim p \<noteq> [] then ''<p>'' @ p @ ''</p>'' else []"
  have w: "escaped (concat (map ?wrap ps))" if "\<forall>p \<in> set ps. escaped p" for ps
    using that
  proof (induction ps)
    case Nil
    then show ?case by (simp add: escaped.empty)
  next
    case (Cons p ps)
    then have p: "escaped p" and ps: "escaped (concat (map ?wrap ps))" by simp_all
    from p have "escaped (''<p>'' @ p @ ''</p>'')"
      by (intro escaped_append escaped_tags)
    then have "escaped (?wrap p)"
      by (cases "trim p = []") (simp_all add: escaped.empty)
    then have "escaped (?wrap p @ concat (map ?wrap ps))"
      using ps by (rule escaped_append)
    then show ?case by (simp only: list.map concat.simps)
  qed
  have js: "join [newline, newline] (split [newline, newline] s) = s"
    by (rule join_split) simp
  have "escaped p" if "p \<in> set (split [newline, newline] s)" for p
    using escaped_join_pieces [of "split [newline, newline] s" p] assms that
    by (simp only: js)
  then have "\<forall>p \<in> set (split [newline, newline] s). escaped p" by blast
  then show ?thesis unfolding paragraphs_def by (rule w)
qed

text \<open>
  Claim C9. For every input text the output of \<open>formatContent\<close> is escaped: the text is
  escaped as a whole before the replacements for code blocks, inline code and paragraphs
  run, and these only take away backticks, line feeds, the word after an opening fence
  and blank paragraphs, and put in whole tags. So a \<^verbatim>\<open><\<close>, \<^verbatim>\<open>>\<close> or \<^verbatim>\<open>&\<close> of the raw text,
  inside a fenced code block or outside, reaches the page as a character reference only.
\<close>

theorem formatContent_escaped: "escaped_html (formatContent raw)"
proof (cases "raw = []")
  case True
  then show ?thesis by (simp add: formatContent_def)
next
  case False
  have "escaped (escapeHtml raw)" by (rule escaped_escapeHtml)
  then have "escaped (code_blocks (escapeHtml raw))"
    using code_blocks_escaped_pre [of "[]"] by simp
  then have "escaped (inline_code (code_blocks (escapeHtml raw)))"
    using inline_code_escaped_pre [of "[]"] by simp
  then have "escaped (formatContent raw)"
    using False by (simp add: formatContent_def paragraphs_escaped)
  then show ?thesis by (rule escaped_imp_escaped_html)
qed

text \<open>A script tag, alone and inside a fenced code block.\<close>

theorem formatContent_escaped_witness:
  "formatContent ''<script>alert(1)</script>'' = ''<p>&lt;script&gt;alert(1)&lt;/script&gt;</p>''
   \<and> formatContent (fence @ ''js'' @ [newline] @ ''<script>'' @ [newline] @ fence)
       = ''<p><pre><code>&lt;script&gt;'' @ [newline] @ ''</code></pre></p>''
   \<and> escaped_html (formatContent (fence @ ''js'' @ [newline] @ ''<script>'' @ [newline] @ fence))"
proof -
  have "formatContent ''<script>alert(1)</script>'' = ''<p>&lt;script&gt;alert(1)&lt;/script&gt;</p>''"
    by code_simp
  moreover have "formatContent (fence @ ''js'' @ [newline] @ ''<script>'' @ [newline] @ fence)
       = ''<p><pre><code>&lt;script&gt;'' @ [newline] @ ''</code></pre></p>''"
    by code_simp
  ultimately show ?thesis
    using formatContent_escaped [of "fence @ ''js'' @ [newline] @ ''<script>'' @ [newline] @ fence"]
    by (simp only: simp_thms)
qed

end
